theory Spec2Isabelle
  imports Main "HOL-Library.Sublist"
begin

section \<open>Strings, bytes and panics\<close>

text \<open>
  A Go string is a sequence of bytes and \<open>len\<close> counts bytes, so a Go string is a
  \<^typ>\<open>string\<close> (a list of 8-bit characters). Go's \<open>int\<close> is \<^typ>\<open>int\<close>: every
  sum the code forms is bounded by a string length plus one, so no wrap-around occurs.
  A run-time panic is a value of \<open>fault\<close>; a function that can panic returns
  \<open>fault + result\<close>.
\<close>

datatype fault = SliceBoundsOutOfRange | SendOnClosedChannel | CloseOfClosedChannel

abbreviation nl :: char where "nl \<equiv> CHR 0x0A"
abbreviation dquote :: char where "dquote \<equiv> CHR 0x22"
abbreviation backslash :: char where "backslash \<equiv> CHR 0x5C"

text \<open>The slice expression \<open>s[lo:hi]\<close>; it panics unless \<open>0 \<le> lo \<le> hi \<le> len(s)\<close>.\<close>

definition slice :: "string \<Rightarrow> int \<Rightarrow> int \<Rightarrow> fault + string" where
  "slice s lo hi =
     (if 0 \<le> lo \<and> lo \<le> hi \<and> hi \<le> int (length s)
      then Inr (take (nat hi - nat lo) (drop (nat lo) s))
      else Inl SliceBoundsOutOfRange)"

text \<open>\<open>strings.Index(s, substr)\<close>: the index of the first instance of \<open>substr\<close> in
  \<open>s\<close>, or \<open>-1\<close>.\<close>

fun Index :: "string \<Rightarrow> string \<Rightarrow> int" where
  "Index [] sub = (if sub = [] then 0 else -1)"
| "Index (c # s) sub =
     (if prefix sub (c # s) then 0
      else (let r = Index s sub in if r = -1 then -1 else r + 1))"

section \<open>Decimal numbers\<close>

text \<open>The \<open>%d\<close> verb and the JSON encoding of an \<open>int\<close>: decimal digits, with a minus
  sign for a negative number.\<close>

function decimal :: "nat \<Rightarrow> string" where
  "decimal n = (if n < 10 then [char_of (48 + n)]
                else decimal (n div 10) @ [char_of (48 + n mod 10)])"
  by pat_completeness auto
termination
  by (relation "measure id") auto

declare decimal.simps [simp del]

definition Itoa :: "int \<Rightarrow> string" where
  "Itoa i = (if i < 0 then CHR ''-'' # decimal (nat (- i)) else decimal (nat i))"

section \<open>UTF-8\<close>

text \<open>
  \<open>utf8.DecodeRuneInString\<close>: the first rune of a string and its width in bytes. An
  invalid or short encoding gives \<open>(RuneError, 1)\<close>, the empty string
  \<open>(RuneError, 0)\<close>. The first byte fixes the width and the range accepted for the
  second byte; the later bytes are continuation bytes \<open>0x80..0xBF\<close>.
\<close>

definition RuneError :: nat where
  "RuneError = 0xFFFD"

definition DecodeRuneInString :: "string \<Rightarrow> nat \<times> nat" where
  "DecodeRuneInString s =
     (case s of [] \<Rightarrow> (RuneError, 0)
      | c0 # _ \<Rightarrow>
       (let s0 = (of_char c0 :: nat) in
        if s0 < 0x80 then (s0, 1)
        else if s0 < 0xC2 \<or> 0xF4 < s0 then (RuneError, 1)
        else
         (let sz = (if s0 < 0xE0 then 2 else if s0 < 0xF0 then 3 else 4 :: nat);
              lo = (if s0 = 0xE0 then 0xA0 else if s0 = 0xF0 then 0x90 else 0x80 :: nat);
              hi = (if s0 = 0xED then 0x9F else if s0 = 0xF4 then 0x8F else 0xBF :: nat)
          in if length s < sz then (RuneError, 1)
             else
              (let s1 = (of_char (s ! 1) :: nat) in
               if s1 < lo \<or> hi < s1 then (RuneError, 1)
               else if sz \<le> 2 then ((s0 mod 0x20) * 0x40 + s1 mod 0x40, 2)
               else
                (let s2 = (of_char (s ! 2) :: nat) in
                 if s2 < 0x80 \<or> 0xBF < s2 then (RuneError, 1)
                 else if sz \<le> 3
                 then ((s0 mod 0x10) * 0x1000 + (s1 mod 0x40) * 0x40 + s2 mod 0x40, 3)
                 else
                  (let s3 = (of_char (s ! 3) :: nat) in
                   if s3 < 0x80 \<or> 0xBF < s3 then (RuneError, 1)
                   else ((s0 mod 0x08) * 0x40000 + (s1 mod 0x40) * 0x1000
                           + (s2 mod 0x40) * 0x40 + s3 mod 0x40, 4)))))))"

text \<open>
  \<open>utf8.AppendRune\<close>: the UTF-8 encoding of a rune; a surrogate or a value beyond
  U+10FFFF is written as \<open>RuneError\<close>.
\<close>

definition EncodeRune :: "nat \<Rightarrow> string" where
  "EncodeRune r =
     (if r \<le> 0x7F then [char_of r]
      else if r \<le> 0x7FF then [char_of (0xC0 + r div 0x40), char_of (0x80 + r mod 0x40)]
      else
       (let r' = (if 0x10FFFF < r \<or> (0xD800 \<le> r \<and> r \<le> 0xDFFF) then RuneError else r) in
        if r' \<le> 0xFFFF
        then [char_of (0xE0 + r' div 0x1000), char_of (0x80 + r' div 0x40 mod 0x40),
              char_of (0x80 + r' mod 0x40)]
        else [char_of (0xF0 + r' div 0x40000), char_of (0x80 + r' div 0x1000 mod 0x40),
              char_of (0x80 + r' div 0x40 mod 0x40), char_of (0x80 + r' mod 0x40)]))"

section \<open>The JSON encoding of a record\<close>

text \<open>
  \<open>json.Marshal\<close> writes a string between double quotes (\<open>appendString\<close> with HTML
  escaping on, the setting of \<open>Marshal\<close>): a byte in \<open>htmlSafeSet\<close> is copied; a
  quote or backslash gets a backslash; backspace, form feed, newline, carriage return and
  tab get their short escapes (releases before Go 1.22 wrote the six-character escapes
  of U+0008 and U+000C for the first two; the decoder reads both alike); any other control
  character and \<open><\<close>, \<open>>\<close>, \<open>&\<close> become a six-character escape; a byte that does not start a
  valid UTF-8 encoding becomes the escape of U+FFFD; U+2028 and U+2029 are escaped; every other
  rune is copied.
\<close>

definition hex :: string where
  "hex = ''0123456789abcdef''"

definition htmlSafeSet :: "char \<Rightarrow> bool" where
  "htmlSafeSet c \<longleftrightarrow>
     0x20 \<le> (of_char c :: nat) \<and> (of_char c :: nat) < 0x80
     \<and> c \<noteq> dquote \<and> c \<noteq> backslash \<and> c \<noteq> CHR ''<'' \<and> c \<noteq> CHR ''>'' \<and> c \<noteq> CHR ''&''"

definition escapeByte :: "char \<Rightarrow> string" where
  "escapeByte c =
     (if c = backslash \<or> c = dquote then [backslash, c]
      else if c = CHR 0x08 then [backslash, CHR ''b'']
      else if c = CHR 0x0C then [backslash, CHR ''f'']
      else if c = nl then [backslash, CHR ''n'']
      else if c = CHR 0x0D then [backslash, CHR ''r'']
      else if c = CHR 0x09 then [backslash, CHR ''t'']
      else [backslash, CHR ''u'', CHR ''0'', CHR ''0'',
            hex ! ((of_char c :: nat) div 16), hex ! ((of_char c :: nat) mod 16)])"

lemma DecodeRuneInString_width:
  "s \<noteq> [] \<Longrightarrow> 1 \<le> snd (DecodeRuneInString s) \<and> snd (DecodeRuneInString s) \<le> 4"
  by (cases s) (simp_all add: DecodeRuneInString_def Let_def)

lemma DecodeRuneInString_pos: "0 < snd (DecodeRuneInString (c # s))"
  using DecodeRuneInString_width [of "c # s"] by simp

function escapeString :: "string \<Rightarrow> string" where
  "escapeString [] = []"
| "escapeString (c # s) =
     (if (of_char c :: nat) < 0x80 then
        (if htmlSafeSet c then c # escapeString s else escapeByte c @ escapeString s)
      else
        (let r = DecodeRuneInString (take 4 (c # s)) in
         if fst r = RuneError \<and> snd r = 1
         then [backslash, CHR ''u'', CHR ''f'', CHR ''f'', CHR ''f'', CHR ''d'']
                @ escapeString s
         else if fst r = 0x2028 \<or> fst r = 0x2029
         then [backslash, CHR ''u'', CHR ''2'', CHR ''0'', CHR ''2'', hex ! (fst r mod 16)]
                @ escapeString (drop (snd r) (c # s))
         else take (snd r) (c # s) @ escapeString (drop (snd r) (c # s))))"
  by pat_completeness auto
termination
  by (relation "measure length") (simp_all add: DecodeRuneInString_pos)

definition appendString :: "string \<Rightarrow> string" where
  "appendString src = dquote # escapeString src @ [dquote]"

text \<open>
  A log level is a Go \<open>int\<close>; its JSON form is the quoted name, or \<open>LEVEL\<close> followed
  by the number for a value outside the four levels.
\<close>

type_synonym LogLevel = int

definition DebugLevel :: LogLevel where "DebugLevel = 0"
definition InfoLevel :: LogLevel where "InfoLevel = 1"
definition WarningLevel :: LogLevel where "WarningLevel = 2"
definition ErrorLevel :: LogLevel where "ErrorLevel = 3"

definition MarshalJSON :: "LogLevel \<Rightarrow> string" where
  "MarshalJSON l =
     (if l = DebugLevel then appendString ''DEBUG''
      else if l = InfoLevel then appendString ''INFO''
      else if l = WarningLevel then appendString ''WARNING''
      else if l = ErrorLevel then appendString ''ERROR''
      else appendString (''LEVEL'' @ Itoa l))"

text \<open>
  The record of one log call. The time stamp is kept as the RFC 3339 text that
  \<open>time.Time\<close> writes into JSON; the clock is an input of the model.
\<close>

record LogMsg =
  Timestamp :: string
  Level :: LogLevel
  Message :: string
  Module :: string
  ModuleId :: string
  SrcFile :: string
  SrcLine :: int

text \<open>
  The members of the JSON object in the order of the struct's fields, each with its
  encoded value; a field tagged \<open>omitempty\<close> is left out when it is empty or zero.
  \<open>Marshal\<close> is the text of the object.
\<close>

definition marshalFields :: "LogMsg \<Rightarrow> (string \<times> string) list" where
  "marshalFields m =
     [(''timestamp'', dquote # Timestamp m @ [dquote]),
      (''level'', MarshalJSON (Level m)),
      (''message'', appendString (Message m)),
      (''service'', appendString (Module m))]
     @ (if ModuleId m = [] then [] else [(''service_id'', appendString (ModuleId m))])
     @ (if SrcFile m = [] then [] else [(''src_file'', appendString (SrcFile m))])
     @ (if SrcLine m = 0 then [] else [(''src_line'', Itoa (SrcLine m))])"

fun members :: "(string \<times> string) list \<Rightarrow> string" where
  "members [] = []"
| "members [(k, v)] = dquote # k @ [dquote, CHR '':''] @ v"
| "members ((k, v) # kvs) = dquote # k @ [dquote, CHR '':''] @ v @ CHR '','' # members kvs"

definition Marshal :: "LogMsg \<Rightarrow> string" where
  "Marshal m = CHR ''{'' # members (marshalFields m) @ ''}''"

section \<open>Decoding a JSON string\<close>

text \<open>
  The reader's side, \<open>unquote\<close> of \<open>encoding/json\<close>: the text between the quotes is
  read rune by rune. A backslash starts an escape; a \<open>u\<close> escape is four hexadecimal
  digits, and two of them that form a surrogate pair are one rune; a quote or a control
  character is an error; a byte that does not start a valid UTF-8 encoding is read as
  \<open>RuneError\<close>. (The scan that hands back a text with nothing to decode unchanged is
  the same function on those texts and is not written out.)
\<close>

definition hexValue :: "char \<Rightarrow> nat option" where
  "hexValue c =
     (let b = (of_char c :: nat) in
      if 48 \<le> b \<and> b \<le> 57 then Some (b - 48)
      else if 97 \<le> b \<and> b \<le> 102 then Some (b - 97 + 10)
      else if 65 \<le> b \<and> b \<le> 70 then Some (b - 65 + 10)
      else None)"

definition getu4 :: "string \<Rightarrow> nat option" where
  "getu4 s =
     (if length s < 6 \<or> s ! 0 \<noteq> backslash \<or> s ! 1 \<noteq> CHR ''u'' then None
      else
       (case (hexValue (s ! 2), hexValue (s ! 3), hexValue (s ! 4), hexValue (s ! 5)) of
          (Some a, Some b, Some c, Some d) \<Rightarrow> Some (((a * 16 + b) * 16 + c) * 16 + d)
        | _ \<Rightarrow> None))"

definition IsSurrogate :: "nat \<Rightarrow> bool" where
  "IsSurrogate r \<longleftrightarrow> 0xD800 \<le> r \<and> r < 0xE000"

text \<open>\<open>utf16.DecodeRune\<close> on the result of a second \<open>getu4\<close>, which may have
  failed.\<close>

definition utf16DecodeRune :: "nat \<Rightarrow> nat option \<Rightarrow> nat" where
  "utf16DecodeRune r1 r2 =
     (case r2 of
        None \<Rightarrow> RuneError
      | Some r2' \<Rightarrow>
          if 0xD800 \<le> r1 \<and> r1 < 0xDC00 \<and> 0xDC00 \<le> r2' \<and> r2' < 0xE000
          then (r1 - 0xD800) * 0x400 + (r2' - 0xDC00) + 0x10000
          else RuneError)"

function unquoteLoop :: "string \<Rightarrow> string option" where
  "unquoteLoop [] = Some []"
| "unquoteLoop (c # s) =
     (if c = backslash then
        (case s of
           [] \<Rightarrow> None
         | e # s' \<Rightarrow>
            if e = dquote \<or> e = backslash \<or> e = CHR ''/'' \<or> e = CHR 0x27
            then map_option (Cons e) (unquoteLoop s')
            else if e = CHR ''b'' then map_option (Cons (CHR 0x08)) (unquoteLoop s')
            else if e = CHR ''f'' then map_option (Cons (CHR 0x0C)) (unquoteLoop s')
            else if e = CHR ''n'' then map_option (Cons nl) (unquoteLoop s')
            else if e = CHR ''r'' then map_option (Cons (CHR 0x0D)) (unquoteLoop s')
            else if e = CHR ''t'' then map_option (Cons (CHR 0x09)) (unquoteLoop s')
            else if e = CHR ''u'' then
              (case getu4 (c # s) of
                 None \<Rightarrow> None
               | Some rr \<Rightarrow>
                  if IsSurrogate rr
                     \<and> utf16DecodeRune rr (getu4 (drop 6 (c # s))) \<noteq> RuneError
                  then map_option
                         (append (EncodeRune (utf16DecodeRune rr (getu4 (drop 6 (c # s))))))
                         (unquoteLoop (drop 12 (c # s)))
                  else map_option
                         (append (EncodeRune (if IsSurrogate rr then RuneError else rr)))
                         (unquoteLoop (drop 6 (c # s))))
            else None)
      else if c = dquote \<or> (of_char c :: nat) < 0x20 then None
      else if (of_char c :: nat) < 0x80 then map_option (Cons c) (unquoteLoop s)
      else map_option (append (EncodeRune (fst (DecodeRuneInString (c # s)))))
             (unquoteLoop (drop (snd (DecodeRuneInString (c # s))) (c # s))))"
  by pat_completeness auto
termination
  by (relation "measure length") (auto simp: DecodeRuneInString_pos)

definition unquote :: "string \<Rightarrow> string option" where
  "unquote s =
     (if length s < 2 \<or> hd s \<noteq> dquote \<or> last s \<noteq> dquote then None
      else unquoteLoop (butlast (tl s)))"

text \<open>\<open>utf8.ValidString\<close>: every rune of the text is a valid UTF-8 encoding.\<close>

function ValidString :: "string \<Rightarrow> bool" where
  "ValidString [] = True"
| "ValidString (c # s) =
     (if (of_char c :: nat) < 0x80 then ValidString s
      else \<not> (fst (DecodeRuneInString (c # s)) = RuneError
               \<and> snd (DecodeRuneInString (c # s)) = 1)
           \<and> ValidString (drop (snd (DecodeRuneInString (c # s))) (c # s)))"
  by pat_completeness auto
termination
  by (relation "measure length") (auto simp: DecodeRuneInString_pos)

section \<open>The logger and \<open>printMessage\<close>\<close>

text \<open>
  A channel is open or closed; the messages that pass through \<open>output\<close> are handed to
  the worker at once, the channel being unbuffered. An \<open>io.Writer\<close> registered with
  the logger is represented by the sequence of buffers written to it so far.
\<close>

datatype chan = Open | Closed

record Logger =
  module :: string
  ident :: string
  "output" :: chan
  Level :: LogLevel
  writers :: "string list list"
  stop :: chan
  msgLen :: int

text \<open>The state \<open>printMessage\<close> works on: the logger and what standard output has
  received, one entry for each write.\<close>

type_synonym world = "Logger \<times> string list"

text \<open>One line, newline included, written to standard output and then to every writer
  in registration order (lines 86 to 89 and 93 to 97 of \<open>log.go\<close>).\<close>

definition emit :: "string \<Rightarrow> world \<Rightarrow> world" where
  "emit bytestring w =
     (fst w \<lparr>writers := map (\<lambda>out. out @ [bytestring @ [nl]]) (writers (fst w))\<rparr>,
      snd w @ [bytestring @ [nl]])"

text \<open>
  The inner loop of lines 68 to 76: \<open>i\<close> runs over the positions of the newlines of
  \<open>text\<close> and \<open>index\<close> keeps the last one that is at most \<open>msgLen\<close>.
\<close>

lemma Index_lower: "- 1 \<le> Index s sub"
  by (induction s) (simp_all add: Let_def)

function lastNewline :: "string \<Rightarrow> int \<Rightarrow> int \<Rightarrow> int \<Rightarrow> fault + int" where
  "lastNewline text n index i =
     (if i \<noteq> - 1 \<and> i \<le> n then
        (case slice text (i + 1) (int (length text)) of
           Inl e \<Rightarrow> Inl e
         | Inr rest \<Rightarrow>
            (let j = Index rest [nl] in
             if j = - 1 then Inr i else lastNewline text n i (j + i + 1)))
      else Inr index)"
  by pat_completeness auto
termination
proof (relation "measure (\<lambda>(text, n, index, i). nat (n + 1 - i))", goal_cases)
  case 1
  show ?case by simp
next
  case (2 t n index i rest j)
  have "- 1 \<le> j" using 2 Index_lower [of rest "[nl]"] by simp
  with 2 show ?case by simp
qed

declare lastNewline.simps [simp del]

text \<open>
  One pass of the body of the splitting loop (lines 66 to 90). The pass works on
  \<open>msgPart\<close>, a copy of \<open>msg\<close>: it gives the copy the fragment, prints the copy, and
  stores the remainder \<open>text\<close> in the copy again. \<open>msg\<close> itself is not assigned, so
  the pass changes the output only.
\<close>

definition splitStep :: "LogMsg \<Rightarrow> world \<Rightarrow> fault + world" where
  "splitStep msg w =
     (let text = Message msg; n = msgLen (fst w) in
      case lastNewline text n (- 1) (Index text [nl]) of
        Inl e \<Rightarrow> Inl e
      | Inr index \<Rightarrow>
         (if index = - 1 then
            (case slice text 0 n of
               Inl e \<Rightarrow> Inl e
             | Inr part \<Rightarrow>
                (case slice text n (int (length text)) of
                   Inl e \<Rightarrow> Inl e
                 | Inr text' \<Rightarrow> Inr (emit (Marshal (msg\<lparr>Message := part\<rparr>)) w)))
          else
            (case slice text 0 index of
               Inl e \<Rightarrow> Inl e
             | Inr part \<Rightarrow>
                (case slice text (index + 1) (int (length text)) of
                   Inl e \<Rightarrow> Inl e
                 | Inr text' \<Rightarrow> Inr (emit (Marshal (msg\<lparr>Message := part\<rparr>)) w)))))"

text \<open>
  The loop of line 65. Its guard reads \<open>msg.Message\<close> and \<open>logger.msgLen\<close>. The
  loop may run forever, which is the value \<open>None\<close>.
\<close>

partial_function (option) splitLoop :: "LogMsg \<Rightarrow> world \<Rightarrow> (fault + world) option" where
  "splitLoop msg w =
     (if msgLen (fst w) < int (length (Message msg)) then
        (case splitStep msg w of
           Inl e \<Rightarrow> Some (Inl e)
         | Inr w' \<Rightarrow> splitLoop msg w')
      else Some (Inr w))"

declare splitLoop.simps [code]

definition printMessage :: "LogMsg \<Rightarrow> world \<Rightarrow> (fault + world) option" where
  "printMessage msg w =
     (if LogMsg.Level msg < Logger.Level (fst w) then Some (Inr w)
      else
        (case splitLoop msg w of
           None \<Rightarrow> None
         | Some (Inl e) \<Rightarrow> Some (Inl e)
         | Some (Inr w') \<Rightarrow> Some (Inr (emit (Marshal msg) w'))))"

section \<open>Formatting with no operands\<close>

text \<open>
  \<open>LogWriter.Write\<close> passes the text it is given to \<open>log\<close> as the format, with no
  values, so the message is \<open>fmt.Sprintf(text)\<close>. This is \<open>doPrintf\<close> of package
  \<open>fmt\<close> for an empty operand list: text is copied up to a percent sign; after it come
  flags, an optional argument index in brackets, a width, a precision and the verb. With
  no operand to print, \<open>%%\<close> gives a percent sign, a star gives \<open>%!(BADWIDTH)\<close> or
  \<open>%!(BADPREC)\<close>, a missing verb \<open>%!(NOVERB)\<close>, a verb after an argument index
  \<open>%!v(BADINDEX)\<close> and any other verb \<open>%!v(MISSING)\<close>.
\<close>

definition isDigit :: "char \<Rightarrow> bool" where
  "isDigit c \<longleftrightarrow> 48 \<le> (of_char c :: nat) \<and> (of_char c :: nat) \<le> 57"

definition isFlag :: "char \<Rightarrow> bool" where
  "isFlag c \<longleftrightarrow> c \<in> set ''#0+- ''"

text \<open>\<open>parsenum\<close> reads a decimal number and returns it, whether one was read, and
  the text after it; over a million it gives up and skips to the end.\<close>

fun parsenumLoop :: "nat \<Rightarrow> bool \<Rightarrow> string \<Rightarrow> nat \<times> bool \<times> string" where
  "parsenumLoop num isnum [] = (num, isnum, [])"
| "parsenumLoop num isnum (c # s) =
     (if isDigit c then
        (if 1000000 < num then (0, False, [])
         else parsenumLoop (num * 10 + (of_char c - 48)) True s)
      else (num, isnum, c # s))"

definition parsenum :: "string \<Rightarrow> nat \<times> bool \<times> string" where
  "parsenum s = (if s = [] then (0, False, []) else parsenumLoop 0 False s)"

text \<open>\<open>parseArgNumber\<close> reads \<open>[n]\<close> at the head of its argument and returns the
  width of what it read and whether it is a well-formed index.\<close>

definition parseArgNumber :: "string \<Rightarrow> nat \<times> bool" where
  "parseArgNumber f =
     (if length f < 3 then (1, False)
      else
       (let mid = takeWhile (\<lambda>c. c \<noteq> CHR '']'') (tl f) in
        if length mid = length (tl f) then (1, False)
        else
         (case parsenum mid of
            (num, isnum, rest) \<Rightarrow>
              if \<not> isnum \<or> rest \<noteq> [] then (length mid + 2, False)
              else (length mid + 2, True))))"

text \<open>\<open>argNumber\<close> with no operands: the text after an argument index, whether the
  index was well formed, and whether an index was seen; any index is out of range, which
  clears \<open>goodArgNum\<close>.\<close>

definition argNumber :: "string \<Rightarrow> string \<times> bool \<times> bool" where
  "argNumber f =
     (if f = [] \<or> hd f \<noteq> CHR ''['' then (f, False, False)
      else (case parseArgNumber f of (wid, ok) \<Rightarrow> (drop wid f, ok, True)))"

definition badWidthString :: string where "badWidthString = ''%!(BADWIDTH)''"
definition badPrecString :: string where "badPrecString = ''%!(BADPREC)''"
definition noVerbString :: string where "noVerbString = ''%!(NOVERB)''"

text \<open>The width: what is written, the text after it, \<open>afterIndex\<close>, and whether the
  argument number has gone bad.\<close>

definition widthPart :: "string \<Rightarrow> bool \<Rightarrow> bool \<Rightarrow> string \<times> string \<times> bool \<times> bool" where
  "widthPart f afterIndex bad =
     (if f \<noteq> [] \<and> hd f = CHR ''*'' then (badWidthString, tl f, False, bad)
      else
       (case parsenum f of
          (num, widPresent, rest) \<Rightarrow> ([], rest, afterIndex, bad \<or> (afterIndex \<and> widPresent))))"

text \<open>The precision, read when a dot is followed by at least one more byte
  (\<open>i+1 < end && format[i] == '.'\<close>); a dot that ends the format is left to be the
  verb.\<close>

definition precisionPart :: "string \<Rightarrow> bool \<Rightarrow> bool \<Rightarrow> string \<times> string \<times> bool \<times> bool" where
  "precisionPart f afterIndex bad =
     (if 2 \<le> length f \<and> hd f = CHR ''.'' then
        (case argNumber (tl f) of
           (g, afterIndex', seen) \<Rightarrow>
             if g \<noteq> [] \<and> hd g = CHR ''*''
             then (badPrecString, tl g, False, bad \<or> afterIndex \<or> seen)
             else
              (case parsenum g of
                 (num, precPresent, rest) \<Rightarrow>
                   ([], rest, afterIndex', bad \<or> afterIndex \<or> seen)))
      else ([], f, afterIndex, bad))"

text \<open>One directive, from the character after the percent sign: what is written and
  the text that is left.\<close>

definition directive :: "string \<Rightarrow> string \<times> string" where
  "directive f =
     (case argNumber (dropWhile isFlag f) of
        (f2, afterIndex1, bad1) \<Rightarrow>
     (case widthPart f2 afterIndex1 bad1 of
        (out1, f3, afterIndex2, bad2) \<Rightarrow>
     (case precisionPart f3 afterIndex2 bad2 of
        (out2, f4, afterIndex3, bad3) \<Rightarrow>
     (case (if afterIndex3 then (f4, False, False) else argNumber f4) of
        (f5, afterIndex4, seen) \<Rightarrow>
          if f5 = [] then (out1 @ out2 @ noVerbString, [])
          else
           (let r = (if (of_char (hd f5) :: nat) < 0x80 then (of_char (hd f5), 1)
                     else DecodeRuneInString f5);
                verb = EncodeRune (fst r)
            in (out1 @ out2 @
                  (if verb = ''%'' then ''%''
                   else if bad3 \<or> seen then ''%!'' @ verb @ ''(BADINDEX)''
                   else ''%!'' @ verb @ ''(MISSING)''),
                drop (snd r) f5))))))"

text \<open>The text after a directive is never longer than the text before it.\<close>

lemma parsenumLoop_length: "length (snd (snd (parsenumLoop num isnum s))) \<le> length s"
  by (induction num isnum s rule: parsenumLoop.induct) (auto intro: le_SucI)

lemma parsenum_length: "length (snd (snd (parsenum s))) \<le> length s"
  by (simp add: parsenum_def parsenumLoop_length)

lemma argNumber_length: "length (fst (argNumber s)) \<le> length s"
  by (simp add: argNumber_def split: prod.splits)

lemma widthPart_length: "length (fst (snd (widthPart s a b))) \<le> length s"
  using parsenum_length [of s] by (auto simp: widthPart_def split: prod.splits)

lemma precisionPart_length: "length (fst (snd (precisionPart s a b))) \<le> length s"
proof -
  have "length (snd (snd (parsenum (fst (argNumber (tl s)))))) \<le> length s"
    using parsenum_length [of "fst (argNumber (tl s))"] argNumber_length [of "tl s"]
    by simp
  moreover have "length (tl (fst (argNumber (tl s)))) \<le> length s"
    using argNumber_length [of "tl s"] by simp
  ultimately show ?thesis
    by (auto simp: precisionPart_def split: prod.splits)
qed

lemma directive_length: "length (snd (directive s)) \<le> length s"
proof -
  let ?f1 = "dropWhile isFlag s"
  let ?f2 = "fst (argNumber ?f1)"
  let ?w = "widthPart ?f2 (fst (snd (argNumber ?f1))) (snd (snd (argNumber ?f1)))"
  let ?f3 = "fst (snd ?w)"
  let ?p = "precisionPart ?f3 (fst (snd (snd ?w))) (snd (snd (snd ?w)))"
  let ?f4 = "fst (snd ?p)"
  have 1: "length ?f1 \<le> length s" by (rule length_dropWhile_le)
  have 2: "length ?f2 \<le> length ?f1" by (rule argNumber_length)
  have 3: "length ?f3 \<le> length ?f2" by (rule widthPart_length)
  have 4: "length ?f4 \<le> length ?f3" by (rule precisionPart_length)
  have 5: "length (fst (argNumber ?f4)) \<le> length ?f4" by (rule argNumber_length)
  from 1 2 3 4 5 show ?thesis
    by (auto simp: directive_def Let_def split: prod.splits)
qed

lemma directive_rest: "(out, rest) = directive s \<Longrightarrow> length rest < Suc (length s)"
  using directive_length [of s] by (cases "directive s") simp

function doPrintf :: "string \<Rightarrow> string" where
  "doPrintf [] = []"
| "doPrintf (c # s) =
     (if c \<noteq> CHR ''%'' then c # doPrintf s
      else (case directive s of (out, rest) \<Rightarrow> out @ doPrintf rest))"
  by pat_completeness auto
termination
  by (relation "measure length") (auto dest: directive_rest)

definition Sprintf :: "string \<Rightarrow> string" where
  "Sprintf format = doPrintf format"

section \<open>Creating a logger\<close>

text \<open>
  The environment is a map from names to values; \<open>os.Getenv\<close> gives the empty string
  for a name that is not set.
\<close>

definition Getenv :: "(string \<rightharpoonup> string) \<Rightarrow> string \<Rightarrow> string" where
  "Getenv env name = (case env name of None \<Rightarrow> [] | Some v \<Rightarrow> v)"

text \<open>
  \<open>strconv.Atoi\<close> on a 64-bit platform. A text of 1 to 18 bytes takes the fast
  path: a sign is taken off, and the digits are summed; any other byte is a syntax error.
  Every other text goes to \<open>ParseInt(s, 10, 0)\<close>, whose \<open>ParseUint\<close> reads byte
  by byte: a byte that is not a digit is a syntax error with value 0, and a digit at
  which the number leaves the range of \<open>uint64\<close> ends the reading at once with the
  largest value and a range error, whatever follows. \<open>ParseInt\<close> then brings the
  value into the range of \<open>int\<close>.
\<close>

datatype NumError = ErrSyntax | ErrRange

fun atoiDigits :: "int \<Rightarrow> string \<Rightarrow> int option" where
  "atoiDigits n [] = Some n"
| "atoiDigits n (ch # s) =
     (if isDigit ch then atoiDigits (n * 10 + (of_char ch - 48)) s else None)"

fun ParseUintLoop :: "int \<Rightarrow> string \<Rightarrow> int \<times> NumError option" where
  "ParseUintLoop n [] = (n, None)"
| "ParseUintLoop n (c # s) =
     (if \<not> isDigit c then (0, Some ErrSyntax)
      else if 1844674407370955162 \<le> n then (18446744073709551615, Some ErrRange)
      else if 18446744073709551615 < n * 10 + (of_char c - 48)
      then (18446744073709551615, Some ErrRange)
      else ParseUintLoop (n * 10 + (of_char c - 48)) s)"

definition ParseUint :: "string \<Rightarrow> int \<times> NumError option" where
  "ParseUint s = (if s = [] then (0, Some ErrSyntax) else ParseUintLoop 0 s)"

text \<open>The text without its sign.\<close>

definition unsigned :: "string \<Rightarrow> string" where
  "unsigned s = (if s \<noteq> [] \<and> (hd s = CHR ''+'' \<or> hd s = CHR ''-'') then tl s else s)"

definition ParseInt :: "string \<Rightarrow> int \<times> NumError option" where
  "ParseInt s =
     (if s = [] then (0, Some ErrSyntax)
      else
       (let neg = (hd s = CHR ''-'') in
        case ParseUint (unsigned s) of
          (un, err) \<Rightarrow>
            if err = Some ErrSyntax then (0, Some ErrSyntax)
            else if \<not> neg \<and> 9223372036854775808 \<le> un
            then (9223372036854775807, Some ErrRange)
            else if neg \<and> 9223372036854775808 < un
            then (- 9223372036854775808, Some ErrRange)
            else (if neg then - un else un, None)))"

definition Atoi :: "string \<Rightarrow> int \<times> NumError option" where
  "Atoi s =
     (if 0 < length s \<and> length s < 19 then
        (if unsigned s = [] then (0, Some ErrSyntax)
         else
          (case atoiDigits 0 (unsigned s) of
             None \<Rightarrow> (0, Some ErrSyntax)
           | Some n \<Rightarrow> (if hd s = CHR ''-'' then - n else n, None)))
      else ParseInt s)"


text \<open>The package variable \<open>MaxMsgLength\<close> as it is declared. A program may assign
  it, so \<open>Init\<close> takes the value it has at the call.\<close>

definition MaxMsgLength :: int where
  "MaxMsgLength = 8000"

text \<open>
  The worker is the goroutine that \<open>Init\<close> starts. It is at its receive on
  \<open>output\<close>, or printing a record it has received, or, the channel closed and the loop
  left, at its send on \<open>stop\<close>, or past that send.
\<close>

datatype worker = Receiving | Printing LogMsg | Signalling | Finished

record process =
  logger :: Logger
  Stdout :: "string list"
  worker :: worker

definition Init :: "string \<Rightarrow> (string \<rightharpoonup> string) \<Rightarrow> int \<Rightarrow> string list \<Rightarrow> process" where
  "Init name env maxMsgLength out =
     (let level = Getenv env ''LOGLEVEL'';
          n = fst (Atoi (Getenv env ''LOG_MSG_LEN''))
      in \<lparr>logger =
            \<lparr>module = name, ident = [], output = Open,
             Level = (if level = ''ERROR'' \<or> level = ''3'' then ErrorLevel
                      else if level = ''WARNING'' \<or> level = ''2'' then WarningLevel
                      else if level = ''DEBUG'' \<or> level = ''0'' then DebugLevel
                      else InfoLevel),
             writers = [], stop = Open,
             msgLen = (if n = 0 then maxMsgLength else n)\<rparr>,
          Stdout = out, worker = Receiving\<rparr>)"

definition AddWriter :: "string list \<Rightarrow> process \<Rightarrow> process" where
  "AddWriter writer p = p\<lparr>logger := (logger p)\<lparr>writers := writers (logger p) @ [writer]\<rparr>\<rparr>"

definition SetModuleId :: "string \<Rightarrow> process \<Rightarrow> process" where
  "SetModuleId i p = p\<lparr>logger := (logger p)\<lparr>ident := i\<rparr>\<rparr>"

section \<open>Logging and stopping\<close>

text \<open>
  A call on the handle returns \<open>Some (Inr \<dots>)\<close>, panics (\<open>Some (Inl \<dots>)\<close>), or
  never returns (\<open>None\<close>). The two goroutines meet at the channels only, so a call is
  modelled in sequence with the worker: where the call needs the worker at a channel
  operation, the worker first finishes the record it is printing (\<open>settle\<close>). A panic
  of the worker ends the process and is the panic of the call that waits for it.
\<close>

definition settle :: "process \<Rightarrow> (fault + process) option" where
  "settle p =
     (case worker p of
        Printing m \<Rightarrow>
          (case printMessage m (logger p, Stdout p) of
             None \<Rightarrow> None
           | Some (Inl e) \<Rightarrow> Some (Inl e)
           | Some (Inr w) \<Rightarrow>
               Some (Inr (p\<lparr>logger := fst w, Stdout := snd w,
                              worker := (if output (fst w) = Closed then Signalling
                                         else Receiving)\<rparr>)))
      | _ \<Rightarrow> Some (Inr p))"

text \<open>\<open>filepath.Base\<close> with the slash as separator: the last element of the path,
  trailing slashes removed.\<close>

definition Base :: "string \<Rightarrow> string" where
  "Base path =
     (if path = [] then ''.''
      else
       (let stripped = rev (dropWhile (\<lambda>c. c = CHR ''/'') (rev path));
            element = rev (takeWhile (\<lambda>c. c \<noteq> CHR ''/'') (rev stripped))
        in if element = [] then ''/'' else element))"

text \<open>What a call reads from the run-time system: the clock and the file and line of
  the caller two frames up.\<close>

record callsite =
  now :: string
  fileName :: string
  lineNumber :: int

text \<open>
  \<open>log\<close> (lines 100 to 111), with \<open>formatted\<close> the result of
  \<open>fmt.Sprintf(format, values...)\<close>: the record is built and sent on \<open>output\<close>. A
  send on a closed channel panics; a send on an open channel returns when the worker
  receives the record.
\<close>

definition log :: "LogLevel \<Rightarrow> string \<Rightarrow> callsite \<Rightarrow> process \<Rightarrow> (fault + process) option" where
  "log level formatted site p =
     (let msg = \<lparr>Timestamp = now site, Level = level, Message = formatted,
                 Module = module (logger p), ModuleId = ident (logger p),
                 SrcFile = Base (fileName site), SrcLine = lineNumber site\<rparr>
      in if output (logger p) = Closed then Some (Inl SendOnClosedChannel)
         else
          (case settle p of
             None \<Rightarrow> None
           | Some (Inl e) \<Rightarrow> Some (Inl e)
           | Some (Inr p') \<Rightarrow>
               if worker p' = Receiving then Some (Inr (p'\<lparr>worker := Printing msg\<rparr>))
               else None))"

definition Debug :: "string \<Rightarrow> callsite \<Rightarrow> process \<Rightarrow> (fault + process) option" where
  "Debug formatted site p = log DebugLevel formatted site p"

definition Info :: "string \<Rightarrow> callsite \<Rightarrow> process \<Rightarrow> (fault + process) option" where
  "Info formatted site p = log InfoLevel formatted site p"

definition Warning :: "string \<Rightarrow> callsite \<Rightarrow> process \<Rightarrow> (fault + process) option" where
  "Warning formatted site p = log WarningLevel formatted site p"

definition Error :: "string \<Rightarrow> callsite \<Rightarrow> process \<Rightarrow> (fault + process) option" where
  "Error formatted site p = log ErrorLevel formatted site p"

text \<open>\<open>close(logger.output)\<close>: closing a closed channel panics; a worker at its
  receive leaves the loop and goes to its send on \<open>stop\<close>.\<close>

definition closeOutput :: "process \<Rightarrow> fault + process" where
  "closeOutput p =
     (if output (logger p) = Closed then Inl CloseOfClosedChannel
      else Inr (p\<lparr>logger := (logger p)\<lparr>output := Closed\<rparr>,
                  worker := (if worker p = Receiving then Signalling else worker p)\<rparr>))"

definition Stop :: "process \<Rightarrow> fault + process" where
  "Stop p = closeOutput p"

text \<open>\<open><-logger.stop\<close>: a receive from a closed channel returns at once; from an open
  one it returns when the worker sends.\<close>

definition receiveStop :: "process \<Rightarrow> (fault + process) option" where
  "receiveStop p =
     (if stop (logger p) = Closed then Some (Inr p)
      else
       (case settle p of
          None \<Rightarrow> None
        | Some (Inl e) \<Rightarrow> Some (Inl e)
        | Some (Inr p') \<Rightarrow>
            if worker p' = Signalling then Some (Inr (p'\<lparr>worker := Finished\<rparr>)) else None))"

definition closeStop :: "process \<Rightarrow> fault + process" where
  "closeStop p =
     (if stop (logger p) = Closed then Inl CloseOfClosedChannel
      else Inr (p\<lparr>logger := (logger p)\<lparr>stop := Closed\<rparr>\<rparr>))"

definition StopSync :: "process \<Rightarrow> (fault + process) option" where
  "StopSync p =
     (case closeOutput p of
        Inl e \<Rightarrow> Some (Inl e)
      | Inr p1 \<Rightarrow>
         (case receiveStop p1 of
            None \<Rightarrow> None
          | Some (Inl e) \<Rightarrow> Some (Inl e)
          | Some (Inr p2) \<Rightarrow> Some (closeStop p2)))"

text \<open>
  A \<open>LogWriter\<close> holds its logger and a level; the logger is the one of the process
  the call is made in. \<open>Write\<close> returns the number of bytes and the error.
\<close>

record LogWriter =
  level :: LogLevel

definition Write ::
  "LogWriter \<Rightarrow> string \<Rightarrow> callsite \<Rightarrow> process
     \<Rightarrow> (fault + ((int \<times> unit option) \<times> process)) option" where
  "Write writer buf site p =
     (let msg = buf in
      case log (level writer) (Sprintf msg) site p of
        None \<Rightarrow> None
      | Some (Inl e) \<Rightarrow> Some (Inl e)
      | Some (Inr p') \<Rightarrow> Some (Inr ((int (length buf), None), p')))"

definition DebugWriter :: LogWriter where "DebugWriter = \<lparr>level = DebugLevel\<rparr>"
definition InfoWriter :: LogWriter where "InfoWriter = \<lparr>level = InfoLevel\<rparr>"
definition WarningWriter :: LogWriter where "WarningWriter = \<lparr>level = WarningLevel\<rparr>"
definition ErrorWriter :: LogWriter where "ErrorWriter = \<lparr>level = ErrorLevel\<rparr>"

section \<open>Reading a line back\<close>

text \<open>
  The reader of a line that the logger has written: a JSON object in the compact form,
  whose values are strings or integers, followed by white space only. A string token
  runs from its quote to the next quote that no backslash precedes; a number token is a
  run of digits and minus signs. The member \<open>message\<close> of the line is the value of the
  last member whose decoded name is \<open>message\<close>, decoded by \<open>unquote\<close>.
\<close>

fun scanStringBody :: "string \<Rightarrow> (string \<times> string) option" where
  "scanStringBody [] = None"
| "scanStringBody (c # s) =
     (if c = dquote then Some ([], s)
      else if c = backslash then
        (case s of
           [] \<Rightarrow> None
         | e # s' \<Rightarrow>
            (case scanStringBody s' of
               None \<Rightarrow> None
             | Some (b, r) \<Rightarrow> Some (c # e # b, r)))
      else
        (case scanStringBody s of
           None \<Rightarrow> None
         | Some (b, r) \<Rightarrow> Some (c # b, r)))"

definition scanString :: "string \<Rightarrow> (string \<times> string) option" where
  "scanString s =
     (case s of
        [] \<Rightarrow> None
      | c # s' \<Rightarrow>
          if c = dquote then
            (case scanStringBody s' of
               None \<Rightarrow> None
             | Some (b, r) \<Rightarrow> Some (dquote # b @ [dquote], r))
          else None)"

definition scanNumber :: "string \<Rightarrow> (string \<times> string) option" where
  "scanNumber s =
     (let tok = takeWhile (\<lambda>c. isDigit c \<or> c = CHR ''-'') s
      in if tok = [] then None else Some (tok, drop (length tok) s))"

definition scanValue :: "string \<Rightarrow> (string \<times> string) option" where
  "scanValue s = (if s \<noteq> [] \<and> hd s = dquote then scanString s else scanNumber s)"

lemma scanStringBody_shorter: "scanStringBody s = Some (b, r) \<Longrightarrow> length r < length s"
proof (induction s arbitrary: b r rule: scanStringBody.induct)
  case 1
  then show ?case by simp
next
  case (2 c s)
  show ?case
  proof (cases "c = dquote")
    case True
    with "2.prems" show ?thesis by simp
  next
    case notq: False
    show ?thesis
    proof (cases "c = backslash")
      case True
      with notq "2.prems" obtain e s' b' where s: "s = e # s'"
        and rec: "scanStringBody s' = Some (b', r)"
        by (auto split: list.splits option.splits)
      from "2.IH"(1) [OF notq True s rec] s show ?thesis by simp
    next
      case False
      with notq "2.prems" obtain b' where rec: "scanStringBody s = Some (b', r)"
        by (auto split: option.splits)
      from "2.IH"(2) [OF notq False rec] show ?thesis by simp
    qed
  qed
qed

lemma scanValue_shorter: "scanValue s = Some (v, r) \<Longrightarrow> length r < length s"
proof (cases "s \<noteq> [] \<and> hd s = dquote")
  case True
  assume "scanValue s = Some (v, r)"
  with True obtain c s' b where "s = c # s'" "scanStringBody s' = Some (b, r)"
    by (auto simp: scanValue_def scanString_def split: list.splits option.splits if_splits)
  then show ?thesis using scanStringBody_shorter [of s' b r] by simp
next
  case False
  assume "scanValue s = Some (v, r)"
  with False have "takeWhile (\<lambda>c. isDigit c \<or> c = CHR ''-'') s \<noteq> []"
    and "r = drop (length (takeWhile (\<lambda>c. isDigit c \<or> c = CHR ''-'') s)) s"
    by (auto simp: scanValue_def scanNumber_def Let_def split: if_splits)
  then show ?thesis by (cases s) auto
qed

lemma scanString_shorter: "scanString s = Some (k, r) \<Longrightarrow> length r < length s"
  using scanStringBody_shorter
  by (fastforce simp: scanString_def split: list.splits option.splits if_splits)

function parseMembers :: "string \<Rightarrow> ((string \<times> string) list \<times> string) option" where
  "parseMembers s =
     (case scanString s of
        None \<Rightarrow> None
      | Some (k, r1) \<Rightarrow>
         (if r1 = [] \<or> hd r1 \<noteq> CHR '':'' then None
          else
           (case scanValue (tl r1) of
              None \<Rightarrow> None
            | Some (v, r3) \<Rightarrow>
               (if r3 = [] then None
                else if hd r3 = CHR ''}'' then Some ([(k, v)], tl r3)
                else if hd r3 = CHR '','' then
                  (case parseMembers (tl r3) of
                     None \<Rightarrow> None
                   | Some (kvs, r) \<Rightarrow> Some ((k, v) # kvs, r))
                else None))))"
  by pat_completeness auto
termination
proof (relation "measure length", goal_cases)
  case 1
  show ?case by simp
next
  case (2 s x k r1 y v r3)
  have "length r1 < length s" using 2 scanString_shorter [of s k r1] by simp
  moreover have "length r3 < length (tl r1)" using 2 scanValue_shorter [of "tl r1" v r3] by simp
  ultimately show ?case by simp
qed

declare parseMembers.simps [simp del]

definition isSpace :: "char \<Rightarrow> bool" where
  "isSpace c \<longleftrightarrow> c = CHR '' '' \<or> c = CHR 0x09 \<or> c = CHR 0x0D \<or> c = nl"

definition parseLine :: "string \<Rightarrow> (string \<times> string) list option" where
  "parseLine line =
     (if line = [] \<or> hd line \<noteq> CHR ''{'' then None
      else if tl line \<noteq> [] \<and> hd (tl line) = CHR ''}'' then
        (if list_all isSpace (tl (tl line)) then Some [] else None)
      else
        (case parseMembers (tl line) of
           None \<Rightarrow> None
         | Some (kvs, r) \<Rightarrow> if list_all isSpace r then Some kvs else None))"

text \<open>The value token of the member called \<open>name\<close>, and the decoded message.\<close>

definition lineField :: "string \<Rightarrow> string \<Rightarrow> string option" where
  "lineField line name =
     (case parseLine line of
        None \<Rightarrow> None
      | Some kvs \<Rightarrow> map_of (rev (map (\<lambda>(k, v). (unquote k, v)) kvs)) (Some name))"

definition lineMessage :: "string \<Rightarrow> string option" where
  "lineMessage line =
     (case lineField line ''message'' of None \<Rightarrow> None | Some v \<Rightarrow> unquote v)"

text \<open>
  The time stamp that \<open>time.Time\<close> writes is RFC 3339 text: digits and the characters
  \<open>-\<close>, \<open>:\<close>, \<open>.\<close>, \<open>+\<close>, \<open>T\<close> and \<open>Z\<close>.
\<close>

definition timestampText :: "string \<Rightarrow> bool" where
  "timestampText ts \<longleftrightarrow> list_all (\<lambda>c. isDigit c \<or> c \<in> set ''-:.+TZ'') ts"

section \<open>Example inputs\<close>

text \<open>
  A logger created with \<open>LOG_MSG_LEN=10\<close> and no \<open>LOGLEVEL\<close>, with one writer added;
  the same logger after \<open>Stop\<close> and after \<open>StopSync\<close>; a logger created with
  \<open>LOGLEVEL=WARNING\<close>; a call site; and the record that \<open>log\<close> builds there.
\<close>

definition exampleProcess :: process where
  "exampleProcess = AddWriter [] (Init ''app'' [''LOG_MSG_LEN'' \<mapsto> ''10''] MaxMsgLength [])"

definition stoppedProcess :: process where
  "stoppedProcess =
     exampleProcess\<lparr>logger := (logger exampleProcess)\<lparr>output := Closed, stop := Closed\<rparr>,
                    worker := Finished\<rparr>"

definition closedProcess :: process where
  "closedProcess =
     exampleProcess\<lparr>logger := (logger exampleProcess)\<lparr>output := Closed\<rparr>,
                    worker := Signalling\<rparr>"

definition warningLogger :: Logger where
  "warningLogger = logger (AddWriter [] (Init ''app'' [''LOGLEVEL'' \<mapsto> ''WARNING''] MaxMsgLength []))"

definition exampleSite :: callsite where
  "exampleSite = \<lparr>now = ''2020-01-01T00:00:00Z'', fileName = ''/src/main.go'', lineNumber = 12\<rparr>"

definition exampleMsg :: "LogLevel \<Rightarrow> string \<Rightarrow> LogMsg" where
  "exampleMsg l text =
     \<lparr>Timestamp = ''2020-01-01T00:00:00Z'', Level = l, Message = text, Module = ''app'',
      ModuleId = [], SrcFile = ''main.go'', SrcLine = 12\<rparr>"

section \<open>The splitting loop\<close>

text \<open>A newline that \<open>Index\<close> finds is a position of the text.\<close>

lemma Index_nl_found:
  "Index s [nl] \<noteq> - 1 \<Longrightarrow>
     0 \<le> Index s [nl] \<and> Index s [nl] < int (length s) \<and> s ! nat (Index s [nl]) = nl"
proof (induction s)
  case Nil
  then show ?case by simp
next
  case (Cons c s)
  show ?case
  proof (cases "c = nl")
    case True
    then show ?thesis by simp
  next
    case False
    with Cons.prems have ne: "Index s [nl] \<noteq> - 1"
      by (simp add: Let_def split: if_splits)
    from Cons.IH [OF ne] False ne show ?thesis
      by (simp add: Let_def nat_add_distrib)
  qed
qed

lemma Index_no_nl: "nl \<notin> set s \<Longrightarrow> Index s [nl] = - 1"
  by (induction s) (simp_all add: Let_def)

lemma slice_tail:
  "0 \<le> lo \<Longrightarrow> lo \<le> int (length s) \<Longrightarrow> slice s lo (int (length s)) = Inr (drop (nat lo) s)"
  by (simp add: slice_def)

lemma slice_head:
  "0 \<le> hi \<Longrightarrow> hi \<le> int (length s) \<Longrightarrow> slice s 0 hi = Inr (take (nat hi) s)"
  by (simp add: slice_def)

text \<open>The inner loop never slices out of range: it returns the index it was given or
  the position of a newline that is at most \<open>n\<close>.\<close>

lemma lastNewline_returns:
  "i = - 1 \<or> (0 \<le> i \<and> i < int (length t) \<and> t ! nat i = nl) \<Longrightarrow>
   \<exists>k. lastNewline t n index i = Inr k
       \<and> (k = index \<or> (0 \<le> k \<and> k < int (length t) \<and> k \<le> n \<and> t ! nat k = nl))"
proof (induction t n index i rule: lastNewline.induct)
  case (1 t n index i)
  show ?case
  proof (cases "i \<noteq> - 1 \<and> i \<le> n")
    case False
    then show ?thesis by (subst lastNewline.simps) auto
  next
    case True
    with "1.prems" have i: "0 \<le> i" "i < int (length t)" "t ! nat i = nl" by auto
    define rest where "rest = drop (nat (i + 1)) t"
    have sl: "slice t (i + 1) (int (length t)) = Inr rest"
      using i by (simp add: slice_tail rest_def)
    show ?thesis
    proof (cases "Index rest [nl] = - 1")
      case True
      with \<open>i \<noteq> - 1 \<and> i \<le> n\<close> sl i show ?thesis
        by (subst lastNewline.simps) (simp add: Let_def)
    next
      case False
      note found = Index_nl_found [OF False]
      let ?j = "Index rest [nl]"
      have len: "int (length rest) = int (length t) - (i + 1)"
        using i by (simp add: rest_def)
      have at: "t ! nat (?j + i + 1) = nl"
      proof -
        have "rest ! nat ?j = t ! (nat (i + 1) + nat ?j)"
          unfolding rest_def using found len i by (intro nth_drop) simp
        moreover have "nat (i + 1) + nat ?j = nat (?j + i + 1)"
          using found i by linarith
        ultimately show ?thesis using found by simp
      qed
      have "?j + i + 1 = - 1 \<or>
            (0 \<le> ?j + i + 1 \<and> ?j + i + 1 < int (length t) \<and> t ! nat (?j + i + 1) = nl)"
        using found len i at by simp
      from "1.IH" [OF True sl refl False this]
      obtain k where k: "lastNewline t n i (?j + i + 1) = Inr k"
        "k = i \<or> (0 \<le> k \<and> k < int (length t) \<and> k \<le> n \<and> t ! nat k = nl)"
        by blast
      have "lastNewline t n index i = Inr k"
        using True sl False k(1) by (subst lastNewline.simps) (simp add: Let_def)
      with k(2) i True show ?thesis by auto
    qed
  qed
qed

lemma lastNewline_negative:
  "n < 0 \<Longrightarrow> - 1 \<le> i \<Longrightarrow> lastNewline t n index i = Inr index"
  by (subst lastNewline.simps) auto

lemma emit_msgLen [simp]: "msgLen (fst (emit b w)) = msgLen (fst w)"
  by (simp add: emit_def)

lemma emit_Level [simp]: "Logger.Level (fst (emit b w)) = Logger.Level (fst w)"
  by (simp add: emit_def)

lemma emit_output [simp]: "output (fst (emit b w)) = output (fst w)"
  by (simp add: emit_def)

text \<open>With a threshold that is not negative, a pass over a longer message prints one
  fragment and returns; with a negative threshold it panics at \<open>text[:logger.msgLen]\<close>.\<close>

lemma splitStep_returns:
  assumes "0 \<le> msgLen (fst w)" and "msgLen (fst w) < int (length (Message msg))"
  shows "\<exists>part. splitStep msg w = Inr (emit (Marshal (msg\<lparr>Message := part\<rparr>)) w)"
proof -
  let ?t = "Message msg" and ?n = "msgLen (fst w)"
  have start: "Index ?t [nl] = - 1 \<or>
      (0 \<le> Index ?t [nl] \<and> Index ?t [nl] < int (length ?t) \<and> ?t ! nat (Index ?t [nl]) = nl)"
    using Index_nl_found [of ?t] by blast
  from lastNewline_returns [OF start, of ?n "- 1"]
  obtain k where k: "lastNewline ?t ?n (- 1) (Index ?t [nl]) = Inr k"
      "k = - 1 \<or> (0 \<le> k \<and> k < int (length ?t) \<and> k \<le> ?n \<and> ?t ! nat k = nl)"
    by blast
  show ?thesis
  proof (cases "k = - 1")
    case True
    with k(1) assms
    have "splitStep msg w
          = Inr (emit (Marshal (msg\<lparr>Message := take (nat (msgLen (fst w))) ?t\<rparr>)) w)"
      by (simp add: splitStep_def slice_head slice_def [of _ "msgLen (fst w)"])
    then show ?thesis by blast
  next
    case False
    with k have "0 \<le> k" "k < int (length ?t)" by auto
    with k(1) False
    have "splitStep msg w = Inr (emit (Marshal (msg\<lparr>Message := take (nat k) ?t\<rparr>)) w)"
      by (simp add: splitStep_def slice_head slice_tail)
    then show ?thesis by blast
  qed
qed

lemma splitStep_panics:
  assumes "msgLen (fst w) < 0"
  shows "splitStep msg w = Inl SliceBoundsOutOfRange"
  using assms Index_lower [of "Message msg" "[nl]"]
  by (simp add: splitStep_def lastNewline_negative slice_def)

text \<open>
  No pass assigns \<open>msg.Message\<close>, so the guard of the loop has the same value before
  every pass: a loop that is entered is never left.
\<close>

lemma splitLoop_never_returns:
  assumes "splitLoop msg w = Some y"
  shows "0 \<le> msgLen (fst w) \<longrightarrow>
         \<not> msgLen (fst w) < int (length (Message msg)) \<and> y = Inr w"
proof (rule splitLoop.raw_induct
    [where P = "\<lambda>msg w y. 0 \<le> msgLen (fst w) \<longrightarrow>
                  \<not> msgLen (fst w) < int (length (Message msg)) \<and> y = Inr w", OF _ assms])
  fix f msg w y
  assume IH: "\<And>msg w y. f msg w = Some y \<Longrightarrow>
      0 \<le> msgLen (fst w) \<longrightarrow> \<not> msgLen (fst w) < int (length (Message msg)) \<and> y = Inr w"
    and unfold: "(if msgLen (fst w) < int (length (Message msg))
        then case splitStep msg w of Inl e \<Rightarrow> Some (Inl e) | Inr w' \<Rightarrow> f msg w'
        else Some (Inr w)) = Some y"
  show "0 \<le> msgLen (fst w) \<longrightarrow> \<not> msgLen (fst w) < int (length (Message msg)) \<and> y = Inr w"
  proof (cases "msgLen (fst w) < int (length (Message msg))")
    case False
    with unfold show ?thesis by auto
  next
    case True
    show ?thesis
    proof
      assume nonneg: "0 \<le> msgLen (fst w)"
      from splitStep_returns [OF nonneg True]
      obtain part where "splitStep msg w = Inr (emit (Marshal (msg\<lparr>Message := part\<rparr>)) w)"
        by blast
      with True unfold have "f msg (emit (Marshal (msg\<lparr>Message := part\<rparr>)) w) = Some y"
        by simp
      from IH [OF this] nonneg True
      show "\<not> msgLen (fst w) < int (length (Message msg)) \<and> y = Inr w" by simp
    qed
  qed
qed

lemma splitLoop_diverges:
  assumes "0 \<le> msgLen (fst w)" and "msgLen (fst w) < int (length (Message msg))"
  shows "splitLoop msg w = None"
proof (cases "splitLoop msg w")
  case None
  then show ?thesis .
next
  case (Some y)
  from splitLoop_never_returns [OF Some] assms show ?thesis by simp
qed

lemma splitLoop_short:
  "\<not> msgLen (fst w) < int (length (Message msg)) \<Longrightarrow> splitLoop msg w = Some (Inr w)"
  by (subst splitLoop.simps) simp

lemma splitLoop_panics:
  assumes "msgLen (fst w) < 0"
  shows "splitLoop msg w = Some (Inl SliceBoundsOutOfRange)"
  using assms by (subst splitLoop.simps) (simp add: splitStep_panics)

lemma printMessage_diverges:
  assumes "Logger.Level lg \<le> LogMsg.Level msg"
    and "0 \<le> msgLen lg" and "msgLen lg < int (length (Message msg))"
  shows "printMessage msg (lg, out) = None"
  using assms splitLoop_diverges [of "(lg, out)" msg] by (simp add: printMessage_def)

lemma printMessage_short:
  assumes "Logger.Level lg \<le> LogMsg.Level msg"
    and "int (length (Message msg)) \<le> msgLen lg"
  shows "printMessage msg (lg, out) = Some (Inr (emit (Marshal msg) (lg, out)))"
  using assms splitLoop_short [of "(lg, out)" msg] by (simp add: printMessage_def)

lemma printMessage_panics:
  assumes "Logger.Level lg \<le> LogMsg.Level msg" and "msgLen lg < 0"
  shows "printMessage msg (lg, out) = Some (Inl SliceBoundsOutOfRange)"
  using assms splitLoop_panics [of "(lg, out)" msg] by (simp add: printMessage_def)

lemma Atoi_10: "Atoi ''10'' = (10, None)"
  by (simp add: Atoi_def unsigned_def isDigit_def)

lemma exampleProcess_eq:
  "exampleProcess =
     \<lparr>logger = \<lparr>module = ''app'', ident = [], output = Open, Level = InfoLevel,
                 writers = [[]], stop = Open, msgLen = 10\<rparr>,
      Stdout = [], worker = Receiving\<rparr>"
  by (simp add: exampleProcess_def AddWriter_def Init_def Getenv_def Atoi_10)

lemma splitStep_example:
  assumes "msgLen (fst w) = 10"
  shows "splitStep (exampleMsg InfoLevel ''hello world this is long'') w
         = Inr (emit (Marshal (exampleMsg InfoLevel ''hello worl'')) w)"
  using assms
  by (simp add: splitStep_def exampleMsg_def Index_no_nl lastNewline.simps slice_def)

text \<open>
  Claim C1. A message of 24 bytes without a newline, on a logger with threshold 10, is
  to come out as three lines of 10, 10 and 4 bytes. The code prints the first 10 bytes,
  and the next pass of the loop prints the same 10 bytes again, since the remainder was
  stored in the copy \<open>msgPart\<close> and not in \<open>msg\<close>; \<open>printMessage\<close> does not
  return.
\<close>

theorem split_repeats_first_fragment:
  "splitStep (exampleMsg InfoLevel ''hello world this is long'') (logger exampleProcess, [])
     = Inr (emit (Marshal (exampleMsg InfoLevel ''hello worl'')) (logger exampleProcess, []))
   \<and> splitStep (exampleMsg InfoLevel ''hello world this is long'')
         (emit (Marshal (exampleMsg InfoLevel ''hello worl'')) (logger exampleProcess, []))
     = Inr (emit (Marshal (exampleMsg InfoLevel ''hello worl''))
            (emit (Marshal (exampleMsg InfoLevel ''hello worl'')) (logger exampleProcess, [])))
   \<and> splitLoop (exampleMsg InfoLevel ''hello world this is long'') (logger exampleProcess, [])
     = None"
proof -
  have "msgLen (fst (logger exampleProcess, [])) = 10"
    by (simp add: exampleProcess_eq)
  moreover have "splitLoop (exampleMsg InfoLevel ''hello world this is long'')
      (logger exampleProcess, []) = None"
    by (rule splitLoop_diverges) (simp_all add: exampleProcess_eq exampleMsg_def)
  ultimately show ?thesis by (simp add: splitStep_example)
qed

text \<open>
  Claim C2. The splitting loop is to end once the remainder is no longer than the
  threshold. On the 24-byte message and threshold 10 the call of \<open>printMessage\<close> never
  returns (the value \<open>None\<close>): the guard \<open>len(msg.Message) > logger.msgLen\<close> stays
  true, as in \<open>splitLoop_diverges\<close> for every message longer than the threshold.
\<close>

theorem printMessage_long_message_never_returns:
  "printMessage (exampleMsg InfoLevel ''hello world this is long'') (logger exampleProcess, [])
     = None"
  by (rule printMessage_diverges) (simp_all add: exampleProcess_eq exampleMsg_def)

section \<open>The level filter\<close>

text \<open>
  Claim C5. A record whose level is strictly below the level of the handle makes
  \<open>printMessage\<close> return at once: standard output and every registered writer are
  left as they were, so no line is written anywhere.
\<close>

theorem printMessage_below_level:
  assumes "LogMsg.Level msg < Logger.Level lg"
  shows "printMessage msg (lg, out) = Some (Inr (lg, out))"
  using assms by (simp add: printMessage_def)

theorem printMessage_below_level_witness:
  "LogMsg.Level (exampleMsg DebugLevel ''x'') < Logger.Level warningLogger
   \<and> printMessage (exampleMsg DebugLevel ''x'') (warningLogger, [])
       = Some (Inr (warningLogger, []))"
proof -
  have h: "LogMsg.Level (exampleMsg DebugLevel ''x'') < Logger.Level warningLogger"
    by (simp add: exampleMsg_def warningLogger_def AddWriter_def Init_def Getenv_def Let_def
        DebugLevel_def WarningLevel_def)
  from printMessage_below_level [OF h, of "[]"] h show ?thesis by simp
qed

section \<open>Configuration from the environment\<close>














section \<open>Stopping a handle\<close>

lemma settle_idle: "worker p = Receiving \<Longrightarrow> settle p = Some (Inr p)"
  by (simp add: settle_def)

lemma log_closed:
  "output (logger p) = Closed \<Longrightarrow> log l t site p = Some (Inl SendOnClosedChannel)"
  by (simp add: log_def)

lemma closeOutput_closes: "closeOutput p = Inr p' \<Longrightarrow> output (logger p') = Closed"
  by (auto simp: closeOutput_def split: if_splits)

lemma closeStop_keeps: "closeStop p = Inr p' \<Longrightarrow> output (logger p') = output (logger p)"
  by (auto simp: closeStop_def split: if_splits)

lemma splitStep_output: "splitStep msg w = Inr w' \<Longrightarrow> output (fst w') = output (fst w)"
  by (auto simp: splitStep_def Let_def split: sum.splits if_splits)

lemma printMessage_output:
  assumes "printMessage msg w = Some (Inr w')"
  shows "output (fst w') = output (fst w)"
proof (cases "LogMsg.Level msg < Logger.Level (fst w)")
  case True
  with assms show ?thesis by (simp add: printMessage_def)
next
  case False
  show ?thesis
  proof (cases "msgLen (fst w) < 0")
    case True
    with False assms splitLoop_panics [of w msg] show ?thesis
      by (simp add: printMessage_def)
  next
    case nonneg: False
    show ?thesis
    proof (cases "msgLen (fst w) < int (length (Message msg))")
      case True
      with nonneg False assms splitLoop_diverges [of w msg] show ?thesis
        by (simp add: printMessage_def)
    next
      case short: False
      with False assms splitLoop_short [of w msg] show ?thesis
        by (auto simp: printMessage_def)
    qed
  qed
qed

lemma settle_output: "settle p = Some (Inr p') \<Longrightarrow> output (logger p') = output (logger p)"
  by (auto simp: settle_def dest: printMessage_output split: worker.splits option.splits sum.splits)

lemma receiveStop_output:
  "receiveStop p = Some (Inr p') \<Longrightarrow> output (logger p') = output (logger p)"
  by (auto simp: receiveStop_def dest: settle_output split: if_splits option.splits sum.splits)

lemma StopSync_closes:
  assumes "StopSync p = Some (Inr p')"
  shows "output (logger p') = Closed"
proof -
  from assms obtain p1 p2 where
    1: "closeOutput p = Inr p1" and 2: "receiveStop p1 = Some (Inr p2)" and 3: "closeStop p2 = Inr p'"
    by (auto simp: StopSync_def split: sum.splits option.splits)
  from closeOutput_closes [OF 1] receiveStop_output [OF 2] closeStop_keeps [OF 3]
  show ?thesis by simp
qed

lemma StopSync_closed:
  "output (logger p) = Closed \<Longrightarrow> StopSync p = Some (Inl CloseOfClosedChannel)"
  by (simp add: StopSync_def closeOutput_def)

lemma Stop_example: "Stop exampleProcess = Inr closedProcess"
  by (simp add: exampleProcess_eq closedProcess_def Stop_def closeOutput_def)

text \<open>
  Claim C3, as the code has it. \<open>StopSync\<close> can be called once: on a handle with both
  channels open and the worker at its receive it returns, both channels closed and the
  worker finished. A second \<open>StopSync\<close>, after a first \<open>StopSync\<close> or a \<open>Stop\<close>
  has returned, does not block, and it is not a no-op: its first statement closes the
  closed channel \<open>output\<close> and panics.
\<close>

theorem StopSync_once:
  "(output (logger p) = Open \<and> stop (logger p) = Open \<and> worker p = Receiving \<longrightarrow>
      StopSync p = Some (Inr (p\<lparr>logger := (logger p)\<lparr>output := Closed, stop := Closed\<rparr>,
                                worker := Finished\<rparr>)))
   \<and> (StopSync p = Some (Inr p') \<or> Stop p = Inr p' \<longrightarrow>
        StopSync p' = Some (Inl CloseOfClosedChannel))"
proof (intro conjI impI)
  assume "output (logger p) = Open \<and> stop (logger p) = Open \<and> worker p = Receiving"
  then show "StopSync p = Some (Inr (p\<lparr>logger := (logger p)\<lparr>output := Closed, stop := Closed\<rparr>,
                                worker := Finished\<rparr>))"
    by (simp add: StopSync_def closeOutput_def receiveStop_def settle_def closeStop_def)
next
  assume "StopSync p = Some (Inr p') \<or> Stop p = Inr p'"
  then have "output (logger p') = Closed"
    using StopSync_closes [of p p'] closeOutput_closes [of p p'] by (auto simp: Stop_def)
  then show "StopSync p' = Some (Inl CloseOfClosedChannel)" by (rule StopSync_closed)
qed

theorem StopSync_once_witness:
  "output (logger exampleProcess) = Open \<and> stop (logger exampleProcess) = Open
   \<and> worker exampleProcess = Receiving
   \<and> StopSync exampleProcess = Some (Inr stoppedProcess)
   \<and> StopSync stoppedProcess = Some (Inl CloseOfClosedChannel)"
proof -
  have h: "output (logger exampleProcess) = Open \<and> stop (logger exampleProcess) = Open
      \<and> worker exampleProcess = Receiving"
    by (simp add: exampleProcess_eq)
  from StopSync_once [of exampleProcess stoppedProcess] h
  show ?thesis by (simp add: stoppedProcess_def)
qed

theorem StopSync_twice_counterexample:
  "StopSync exampleProcess = Some (Inr stoppedProcess)
   \<and> StopSync stoppedProcess = Some (Inl CloseOfClosedChannel)
   \<and> Stop exampleProcess = Inr closedProcess
   \<and> StopSync closedProcess = Some (Inl CloseOfClosedChannel)"
  by (simp add: exampleProcess_eq stoppedProcess_def closedProcess_def StopSync_def Stop_def
      closeOutput_def receiveStop_def settle_def closeStop_def)

text \<open>
  Claim C4, as the code has it. After \<open>Stop\<close> or \<open>StopSync\<close> has returned, each of
  \<open>Debug\<close>, \<open>Info\<close>, \<open>Warning\<close> and \<open>Error\<close> panics: \<open>log\<close> sends on the
  closed channel \<open>output\<close>.
\<close>

theorem log_after_stop_panics:
  assumes "Stop p = Inr p' \<or> StopSync p = Some (Inr p')"
  shows "Debug text site p' = Some (Inl SendOnClosedChannel)
       \<and> Info text site p' = Some (Inl SendOnClosedChannel)
       \<and> Warning text site p' = Some (Inl SendOnClosedChannel)
       \<and> Error text site p' = Some (Inl SendOnClosedChannel)"
proof -
  from assms have "output (logger p') = Closed"
    using StopSync_closes [of p p'] closeOutput_closes [of p p'] by (auto simp: Stop_def)
  then show ?thesis
    by (simp add: Debug_def Info_def Warning_def Error_def log_closed)
qed

theorem log_after_stop_panics_witness:
  "(Stop exampleProcess = Inr closedProcess
      \<or> StopSync exampleProcess = Some (Inr closedProcess))
   \<and> Debug ''x'' exampleSite closedProcess = Some (Inl SendOnClosedChannel)
   \<and> Info ''x'' exampleSite closedProcess = Some (Inl SendOnClosedChannel)
   \<and> Warning ''x'' exampleSite closedProcess = Some (Inl SendOnClosedChannel)
   \<and> Error ''x'' exampleSite closedProcess = Some (Inl SendOnClosedChannel)"
proof -
  have h: "Stop exampleProcess = Inr closedProcess
      \<or> StopSync exampleProcess = Some (Inr closedProcess)"
    by (simp add: Stop_example)
  from log_after_stop_panics [OF h, of "''x''" exampleSite] h show ?thesis by simp
qed

theorem log_after_stop_counterexample:
  "Stop exampleProcess = Inr closedProcess
   \<and> Info ''x'' exampleSite closedProcess = Some (Inl SendOnClosedChannel)
   \<and> StopSync exampleProcess = Some (Inr stoppedProcess)
   \<and> Info ''x'' exampleSite stoppedProcess = Some (Inl SendOnClosedChannel)"
  by (simp add: exampleProcess_eq stoppedProcess_def closedProcess_def StopSync_def Stop_def
      closeOutput_def receiveStop_def settle_def closeStop_def Info_def log_def)

section \<open>The writer adapters\<close>

text \<open>A text without a percent sign is its own formatting.\<close>

lemma doPrintf_plain: "CHR ''%'' \<notin> set s \<Longrightarrow> doPrintf s = s"
  by (induction s) auto

lemma Sprintf_percent: "Sprintf ''100%'' = ''100%!(NOVERB)''"
  by (simp add: Sprintf_def directive_def argNumber_def widthPart_def precisionPart_def
      parsenum_def noVerbString_def)

text \<open>
  Claim C7. \<open>Write\<close> is to log the text of the buffer. It passes the text as the
  format of \<open>log\<close>, so a percent sign in it is read as a directive: for the buffer
  \<open>100%\<close> written to the Info adapter, the one record handed to the worker has level
  Info and the message \<open>100%!(NOVERB)\<close>.
\<close>

theorem Write_percent_example:
  "Write InfoWriter ''100%'' exampleSite exampleProcess
     = Some (Inr ((4, None),
          exampleProcess\<lparr>worker := Printing (exampleMsg InfoLevel ''100%!(NOVERB)'')\<rparr>))"
  by (simp add: Write_def log_def Sprintf_percent settle_def exampleProcess_eq InfoWriter_def
      exampleMsg_def exampleSite_def Base_def)

text \<open>
  Claim C10, as the code has it. On a handle whose channel \<open>output\<close> is open and whose
  worker is at its receive, or returns from the record it is printing, \<open>Write\<close>
  returns the length of the buffer and no error, whatever the level of the adapter and the
  configuration of the logger. In every state a \<open>Write\<close> that returns, returns that
  pair; on a stopped handle it does not return but panics.
\<close>

theorem Write_reports_full_length:
  "(output (logger p) = Open
      \<and> (worker p = Receiving
           \<or> (\<exists>m w. worker p = Printing m
                  \<and> printMessage m (logger p, Stdout p) = Some (Inr w))) \<longrightarrow>
      (\<exists>p'. Write writer buf site p = Some (Inr ((int (length buf), None), p'))))
   \<and> (\<forall>n err p'. Write writer buf site p = Some (Inr ((n, err), p')) \<longrightarrow>
         n = int (length buf) \<and> err = None)"
proof -
  have returns: "\<exists>p'. Write writer buf site p = Some (Inr ((int (length buf), None), p'))"
    if op: "output (logger p) = Open"
      and wk: "worker p = Receiving
           \<or> (\<exists>m w. worker p = Printing m
                  \<and> printMessage m (logger p, Stdout p) = Some (Inr w))"
  proof -
    from wk consider "worker p = Receiving"
      | m w where "worker p = Printing m" "printMessage m (logger p, Stdout p) = Some (Inr w)"
      by blast
    then obtain q where q: "settle p = Some (Inr q)" "worker q = Receiving"
    proof cases
      case 1
      then show ?thesis using that [of p] by (simp add: settle_def)
    next
      case 2
      from printMessage_output [OF 2(2)] op have "output (fst w) = Open" by simp
      with 2 show ?thesis
        using that [of "p\<lparr>logger := fst w, Stdout := snd w, worker := Receiving\<rparr>"]
        by (simp add: settle_def)
    qed
    with op show ?thesis by (simp add: Write_def log_def Let_def)
  qed
  have result: "n = int (length buf) \<and> err = None"
    if "Write writer buf site p = Some (Inr ((n, err), p'))" for n err p'
    using that by (auto simp: Write_def Let_def split: option.splits sum.splits)
  from returns result show ?thesis by blast
qed

theorem Write_reports_full_length_witness:
  "output (logger exampleProcess) = Open \<and> worker exampleProcess = Receiving
   \<and> (\<exists>p'. Write WarningWriter ''abc'' exampleSite exampleProcess
              = Some (Inr ((3, None), p')))
   \<and> Write WarningWriter ''abc'' exampleSite exampleProcess
       = Some (Inr ((3, None),
            exampleProcess\<lparr>worker := Printing (exampleMsg WarningLevel ''abc'')\<rparr>))"
proof -
  have h: "output (logger exampleProcess) = Open \<and> worker exampleProcess = Receiving"
    by (simp add: exampleProcess_eq)
  have e: "Write WarningWriter ''abc'' exampleSite exampleProcess
       = Some (Inr ((3, None),
            exampleProcess\<lparr>worker := Printing (exampleMsg WarningLevel ''abc'')\<rparr>))"
    by (simp add: Write_def log_def Sprintf_def settle_def exampleProcess_eq WarningWriter_def
        exampleMsg_def exampleSite_def Base_def)
  from Write_reports_full_length [of exampleProcess WarningWriter "''abc''" exampleSite] h e
  show ?thesis by simp
qed

theorem Write_on_stopped_counterexample:
  "Stop exampleProcess = Inr closedProcess
   \<and> Write InfoWriter ''abc'' exampleSite closedProcess = Some (Inl SendOnClosedChannel)"
  by (simp add: Stop_example) (simp add: Write_def log_def closedProcess_def)

section \<open>UTF-8 runes\<close>

text \<open>
  The bytes of a valid encoding are the digits of the rune in base 64 above a marker, so
  \<open>EncodeRune\<close> gives back the bytes that \<open>DecodeRuneInString\<close> read.
\<close>

lemma mod_base:
  fixes a base n :: nat
  assumes "base \<le> a" and "a < base + n" and "n dvd base"
  shows "a mod n = a - base"
  using assms by (intro mod_nat_eqI) auto

lemma digit_low:
  fixes q k :: nat
  assumes "k < 0x40"
  shows "(q * 0x40 + k) mod 0x40 = k" and "(q * 0x40 + k) div 0x40 = q"
  using assms by simp_all

lemma digits3:
  fixes k0 k1 k2 :: nat
  assumes "k1 < 0x40" and "k2 < 0x40"
  shows "(k0 * 0x1000 + k1 * 0x40 + k2) div 0x1000 = k0"
    and "(k0 * 0x1000 + k1 * 0x40 + k2) div 0x40 mod 0x40 = k1"
    and "(k0 * 0x1000 + k1 * 0x40 + k2) mod 0x40 = k2"
proof -
  have r: "k0 * 0x1000 + k1 * 0x40 + k2 = (k0 * 0x40 + k1) * 0x40 + k2" by simp
  have d: "(k0 * 0x1000 + k1 * 0x40 + k2) div 0x40 = k0 * 0x40 + k1"
    unfolding r by (rule digit_low(2) [OF assms(2)])
  show "(k0 * 0x1000 + k1 * 0x40 + k2) div 0x40 mod 0x40 = k1"
    unfolding d by (rule digit_low(1) [OF assms(1)])
  show "(k0 * 0x1000 + k1 * 0x40 + k2) mod 0x40 = k2"
    unfolding r by (rule digit_low(1) [OF assms(2)])
  have "(k0 * 0x1000 + k1 * 0x40 + k2) div 0x1000
        = (k0 * 0x1000 + k1 * 0x40 + k2) div 0x40 div 0x40"
    by (simp add: div_mult2_eq)
  also have "\<dots> = k0" unfolding d by (rule digit_low(2) [OF assms(1)])
  finally show "(k0 * 0x1000 + k1 * 0x40 + k2) div 0x1000 = k0" .
qed

lemma digits4:
  fixes k0 k1 k2 k3 :: nat
  assumes "k1 < 0x40" and "k2 < 0x40" and "k3 < 0x40"
  shows "(k0 * 0x40000 + k1 * 0x1000 + k2 * 0x40 + k3) div 0x40000 = k0"
    and "(k0 * 0x40000 + k1 * 0x1000 + k2 * 0x40 + k3) div 0x1000 mod 0x40 = k1"
    and "(k0 * 0x40000 + k1 * 0x1000 + k2 * 0x40 + k3) div 0x40 mod 0x40 = k2"
    and "(k0 * 0x40000 + k1 * 0x1000 + k2 * 0x40 + k3) mod 0x40 = k3"
proof -
  let ?r = "k0 * 0x40000 + k1 * 0x1000 + k2 * 0x40 + k3"
  let ?q = "k0 * 0x1000 + k1 * 0x40 + k2"
  have r: "?r = ?q * 0x40 + k3" by simp
  have d: "?r div 0x40 = ?q" unfolding r by (rule digit_low(2) [OF assms(3)])
  show "?r mod 0x40 = k3" unfolding r by (rule digit_low(1) [OF assms(3)])
  show "?r div 0x40 mod 0x40 = k2" unfolding d by (rule digits3(3) [OF assms(1,2)])
  have "?r div 0x1000 = ?r div 0x40 div 0x40" by (simp add: div_mult2_eq)
  then have d2: "?r div 0x1000 = ?q div 0x40" unfolding d .
  show "?r div 0x1000 mod 0x40 = k1" unfolding d2 by (rule digits3(2) [OF assms(1,2)])
  have "?r div 0x40000 = ?r div 0x40 div 0x1000" by (simp add: div_mult2_eq)
  then show "?r div 0x40000 = k0" unfolding d using digits3(1) [OF assms(1,2)] by simp
qed

text \<open>The encodings of two, three and four bytes, on the digits.\<close>

lemma EncodeRune2:
  fixes k0 k1 :: nat
  assumes "2 \<le> k0" "k0 < 0x20" "k1 < 0x40"
  shows "EncodeRune (k0 * 0x40 + k1) = [char_of (0xC0 + k0), char_of (0x80 + k1)]"
proof -
  define r where "r = k0 * 0x40 + k1"
  have lo: "0x7F < r" using assms unfolding r_def by linarith
  have hi: "r \<le> 0x7FF" using assms unfolding r_def by linarith
  have d: "r div 0x40 = k0" "r mod 0x40 = k1"
    unfolding r_def by (rule digit_low [OF assms(3)])+
  have f: "(r \<le> 0x7F) \<longleftrightarrow> False" "(r \<le> 0x7FF) \<longleftrightarrow> True"
    using lo hi by simp_all
  have "EncodeRune r = [char_of (0xC0 + r div 0x40), char_of (0x80 + r mod 0x40)]"
    by (simp only: EncodeRune_def Let_def f if_True if_False)
  then show ?thesis unfolding d unfolding r_def .
qed

lemma EncodeRune3:
  fixes k0 k1 k2 :: nat
  assumes "k0 < 0x10" "k1 < 0x40" "k2 < 0x40"
    and "k0 = 0 \<longrightarrow> 0x20 \<le> k1" and "k0 = 0xD \<longrightarrow> k1 < 0x20"
  shows "EncodeRune (k0 * 0x1000 + k1 * 0x40 + k2)
         = [char_of (0xE0 + k0), char_of (0x80 + k1), char_of (0x80 + k2)]"
proof -
  define r where "r = k0 * 0x1000 + k1 * 0x40 + k2"
  have lo: "0x7FF < r"
  proof (cases "k0 = 0")
    case True
    with assms(4) show ?thesis unfolding r_def by simp
  next
    case False
    then have "1 \<le> k0" by simp
    then show ?thesis unfolding r_def by linarith
  qed
  have hi: "r \<le> 0xFFFF" using assms(1-3) unfolding r_def by linarith
  have ns: "\<not> (0xD800 \<le> r \<and> r \<le> 0xDFFF)"
  proof -
    consider "k0 \<le> 0xC" | "k0 = 0xD" | "0xE \<le> k0" by linarith
    then show ?thesis
    proof cases
      case 1
      with assms(2,3) have "r < 0xD800" unfolding r_def by linarith
      then show ?thesis by simp
    next
      case 2
      with assms(3,5) have "r < 0xD800" unfolding r_def by simp
      then show ?thesis by simp
    next
      case 3
      then have "0xDFFF < r" unfolding r_def by linarith
      then show ?thesis by simp
    qed
  qed
  have d: "r div 0x1000 = k0" "r div 0x40 mod 0x40 = k1" "r mod 0x40 = k2"
    unfolding r_def by (rule digits3 [OF assms(2,3)])+
  have cond: "(0x10FFFF < r \<or> (0xD800 \<le> r \<and> r \<le> 0xDFFF)) \<longleftrightarrow> False"
    using hi ns by simp
  have f: "(r \<le> 0x7F) \<longleftrightarrow> False" "(r \<le> 0x7FF) \<longleftrightarrow> False"
    "(r \<le> 0xFFFF) \<longleftrightarrow> True"
    using lo hi by simp_all
  have "EncodeRune r = [char_of (0xE0 + r div 0x1000), char_of (0x80 + r div 0x40 mod 0x40),
                         char_of (0x80 + r mod 0x40)]"
    by (simp only: EncodeRune_def Let_def f cond if_True if_False)
  then show ?thesis unfolding d unfolding r_def .
qed

lemma EncodeRune4:
  fixes k0 k1 k2 k3 :: nat
  assumes "k0 \<le> 4" "k1 < 0x40" "k2 < 0x40" "k3 < 0x40"
    and "k0 = 0 \<longrightarrow> 0x10 \<le> k1" and "k0 = 4 \<longrightarrow> k1 < 0x10"
  shows "EncodeRune (k0 * 0x40000 + k1 * 0x1000 + k2 * 0x40 + k3)
         = [char_of (0xF0 + k0), char_of (0x80 + k1), char_of (0x80 + k2), char_of (0x80 + k3)]"
proof -
  define r where "r = k0 * 0x40000 + k1 * 0x1000 + k2 * 0x40 + k3"
  have lo: "0xFFFF < r"
  proof (cases "k0 = 0")
    case True
    with assms(5) show ?thesis unfolding r_def by simp
  next
    case False
    then have "1 \<le> k0" by simp
    then show ?thesis unfolding r_def by linarith
  qed
  have hi: "r \<le> 0x10FFFF"
  proof (cases "k0 = 4")
    case True
    with assms(3,4,6) show ?thesis unfolding r_def by simp
  next
    case False
    with assms(1) have "k0 \<le> 3" by simp
    with assms(2-4) show ?thesis unfolding r_def by linarith
  qed
  have d: "r div 0x40000 = k0" "r div 0x1000 mod 0x40 = k1" "r div 0x40 mod 0x40 = k2"
    "r mod 0x40 = k3"
    unfolding r_def by (rule digits4 [OF assms(2-4)])+
  have cond: "(0x10FFFF < r \<or> (0xD800 \<le> r \<and> r \<le> 0xDFFF)) \<longleftrightarrow> False"
    using lo hi by simp
  have f: "(r \<le> 0x7F) \<longleftrightarrow> False" "(r \<le> 0x7FF) \<longleftrightarrow> False"
    "(r \<le> 0xFFFF) \<longleftrightarrow> False"
    using lo by simp_all
  have "EncodeRune r = [char_of (0xF0 + r div 0x40000), char_of (0x80 + r div 0x1000 mod 0x40),
                         char_of (0x80 + r div 0x40 mod 0x40), char_of (0x80 + r mod 0x40)]"
    by (simp only: EncodeRune_def Let_def f cond if_True if_False)
  then show ?thesis unfolding d unfolding r_def .
qed


text \<open>Decoding a well-formed sequence of two, three and four bytes, and encoding the
  result.\<close>

lemma Decode2:
  fixes c0 c1 :: char
  assumes "0xC2 \<le> (of_char c0 :: nat)" "(of_char c0 :: nat) < 0xE0"
    and "0x80 \<le> (of_char c1 :: nat)" "(of_char c1 :: nat) \<le> 0xBF"
  shows "DecodeRuneInString (c0 # c1 # t)
         = (((of_char c0 :: nat) - 0xC0) * 0x40 + ((of_char c1 :: nat) - 0x80), 2)"
    and "EncodeRune (((of_char c0 :: nat) - 0xC0) * 0x40 + ((of_char c1 :: nat) - 0x80)) = [c0, c1]"
proof -
  let ?a0 = "of_char c0 :: nat" and ?a1 = "of_char c1 :: nat"
  have m0: "?a0 mod 0x20 = ?a0 - 0xC0" using assms by (intro mod_base) simp_all
  have m1: "?a1 mod 0x40 = ?a1 - 0x80" using assms by (intro mod_base) simp_all
  have "DecodeRuneInString (c0 # c1 # t) = (?a0 mod 0x20 * 0x40 + ?a1 mod 0x40, 2)"
    using assms by (simp add: DecodeRuneInString_def Let_def)
  then show "DecodeRuneInString (c0 # c1 # t) = ((?a0 - 0xC0) * 0x40 + (?a1 - 0x80), 2)"
    unfolding m0 m1 .
  have "EncodeRune ((?a0 - 0xC0) * 0x40 + (?a1 - 0x80))
        = [char_of (0xC0 + (?a0 - 0xC0)), char_of (0x80 + (?a1 - 0x80))]"
    using assms by (intro EncodeRune2) simp_all
  also have "0xC0 + (?a0 - 0xC0) = ?a0" using assms by simp
  also have "0x80 + (?a1 - 0x80) = ?a1" using assms by simp
  finally show "EncodeRune ((?a0 - 0xC0) * 0x40 + (?a1 - 0x80)) = [c0, c1]" by simp
qed

lemma Decode3:
  fixes c0 c1 c2 :: char
  assumes "0xE0 \<le> (of_char c0 :: nat)" "(of_char c0 :: nat) < 0xF0"
    and "0x80 \<le> (of_char c1 :: nat)" "(of_char c1 :: nat) \<le> 0xBF"
    and "(of_char c0 :: nat) = 0xE0 \<longrightarrow> 0xA0 \<le> (of_char c1 :: nat)"
    and "(of_char c0 :: nat) = 0xED \<longrightarrow> (of_char c1 :: nat) \<le> 0x9F"
    and "0x80 \<le> (of_char c2 :: nat)" "(of_char c2 :: nat) \<le> 0xBF"
  shows "DecodeRuneInString (c0 # c1 # c2 # t)
         = (((of_char c0 :: nat) - 0xE0) * 0x1000 + ((of_char c1 :: nat) - 0x80) * 0x40
              + ((of_char c2 :: nat) - 0x80), 3)"
    and "EncodeRune (((of_char c0 :: nat) - 0xE0) * 0x1000 + ((of_char c1 :: nat) - 0x80) * 0x40
              + ((of_char c2 :: nat) - 0x80)) = [c0, c1, c2]"
proof -
  let ?a0 = "of_char c0 :: nat" and ?a1 = "of_char c1 :: nat" and ?a2 = "of_char c2 :: nat"
  have m0: "?a0 mod 0x10 = ?a0 - 0xE0" using assms by (intro mod_base) simp_all
  have m1: "?a1 mod 0x40 = ?a1 - 0x80" using assms by (intro mod_base) simp_all
  have m2: "?a2 mod 0x40 = ?a2 - 0x80" using assms by (intro mod_base) simp_all
  have "DecodeRuneInString (c0 # c1 # c2 # t)
        = (?a0 mod 0x10 * 0x1000 + ?a1 mod 0x40 * 0x40 + ?a2 mod 0x40, 3)"
    using assms by (simp add: DecodeRuneInString_def Let_def) arith
  then show "DecodeRuneInString (c0 # c1 # c2 # t)
        = ((?a0 - 0xE0) * 0x1000 + (?a1 - 0x80) * 0x40 + (?a2 - 0x80), 3)"
    unfolding m0 m1 m2 .
  have "EncodeRune ((?a0 - 0xE0) * 0x1000 + (?a1 - 0x80) * 0x40 + (?a2 - 0x80))
        = [char_of (0xE0 + (?a0 - 0xE0)), char_of (0x80 + (?a1 - 0x80)),
           char_of (0x80 + (?a2 - 0x80))]"
    using assms by (intro EncodeRune3) auto
  also have "0xE0 + (?a0 - 0xE0) = ?a0" using assms by simp
  also have "0x80 + (?a1 - 0x80) = ?a1" using assms by simp
  also have "0x80 + (?a2 - 0x80) = ?a2" using assms by simp
  finally show "EncodeRune ((?a0 - 0xE0) * 0x1000 + (?a1 - 0x80) * 0x40 + (?a2 - 0x80))
      = [c0, c1, c2]" by simp
qed

lemma Decode4:
  fixes c0 c1 c2 c3 :: char
  assumes "0xF0 \<le> (of_char c0 :: nat)" "(of_char c0 :: nat) \<le> 0xF4"
    and "0x80 \<le> (of_char c1 :: nat)" "(of_char c1 :: nat) \<le> 0xBF"
    and "(of_char c0 :: nat) = 0xF0 \<longrightarrow> 0x90 \<le> (of_char c1 :: nat)"
    and "(of_char c0 :: nat) = 0xF4 \<longrightarrow> (of_char c1 :: nat) \<le> 0x8F"
    and "0x80 \<le> (of_char c2 :: nat)" "(of_char c2 :: nat) \<le> 0xBF"
    and "0x80 \<le> (of_char c3 :: nat)" "(of_char c3 :: nat) \<le> 0xBF"
  shows "DecodeRuneInString (c0 # c1 # c2 # c3 # t)
         = (((of_char c0 :: nat) - 0xF0) * 0x40000 + ((of_char c1 :: nat) - 0x80) * 0x1000
              + ((of_char c2 :: nat) - 0x80) * 0x40 + ((of_char c3 :: nat) - 0x80), 4)"
    and "EncodeRune (((of_char c0 :: nat) - 0xF0) * 0x40000 + ((of_char c1 :: nat) - 0x80) * 0x1000
              + ((of_char c2 :: nat) - 0x80) * 0x40 + ((of_char c3 :: nat) - 0x80))
         = [c0, c1, c2, c3]"
proof -
  let ?a0 = "of_char c0 :: nat" and ?a1 = "of_char c1 :: nat"
  let ?a2 = "of_char c2 :: nat" and ?a3 = "of_char c3 :: nat"
  have m0: "?a0 mod 0x08 = ?a0 - 0xF0" using assms by (intro mod_base) simp_all
  have m1: "?a1 mod 0x40 = ?a1 - 0x80" using assms by (intro mod_base) simp_all
  have m2: "?a2 mod 0x40 = ?a2 - 0x80" using assms by (intro mod_base) simp_all
  have m3: "?a3 mod 0x40 = ?a3 - 0x80" using assms by (intro mod_base) simp_all
  have "DecodeRuneInString (c0 # c1 # c2 # c3 # t)
        = (?a0 mod 0x08 * 0x40000 + ?a1 mod 0x40 * 0x1000 + ?a2 mod 0x40 * 0x40
             + ?a3 mod 0x40, 4)"
    using assms by (simp add: DecodeRuneInString_def Let_def) arith
  then show "DecodeRuneInString (c0 # c1 # c2 # c3 # t)
        = ((?a0 - 0xF0) * 0x40000 + (?a1 - 0x80) * 0x1000 + (?a2 - 0x80) * 0x40
             + (?a3 - 0x80), 4)"
    unfolding m0 m1 m2 m3 .
  have "EncodeRune ((?a0 - 0xF0) * 0x40000 + (?a1 - 0x80) * 0x1000 + (?a2 - 0x80) * 0x40
             + (?a3 - 0x80))
        = [char_of (0xF0 + (?a0 - 0xF0)), char_of (0x80 + (?a1 - 0x80)),
           char_of (0x80 + (?a2 - 0x80)), char_of (0x80 + (?a3 - 0x80))]"
    using assms by (intro EncodeRune4) auto
  also have "0xF0 + (?a0 - 0xF0) = ?a0" using assms by simp
  also have "0x80 + (?a1 - 0x80) = ?a1" using assms by simp
  also have "0x80 + (?a2 - 0x80) = ?a2" using assms by simp
  also have "0x80 + (?a3 - 0x80) = ?a3" using assms by simp
  finally show "EncodeRune ((?a0 - 0xF0) * 0x40000 + (?a1 - 0x80) * 0x1000
      + (?a2 - 0x80) * 0x40 + (?a3 - 0x80)) = [c0, c1, c2, c3]" by simp
qed


text \<open>
  A first byte of 128 or more that does not decode to \<open>(RuneError, 1)\<close> starts a
  sequence \<open>bs\<close> of bytes, all of them 128 or more, that is the encoding of the rune
  read, whatever follows it.
\<close>

lemma valid_rune:
  assumes high: "\<not> (of_char c0 :: nat) < 0x80"
    and ok: "\<not> (fst (DecodeRuneInString (c0 # s)) = RuneError
               \<and> snd (DecodeRuneInString (c0 # s)) = 1)"
  shows "\<exists>bs rest. c0 # s = bs @ rest
           \<and> snd (DecodeRuneInString (c0 # s)) = length bs
           \<and> EncodeRune (fst (DecodeRuneInString (c0 # s))) = bs
           \<and> (\<forall>t. DecodeRuneInString (bs @ t) = DecodeRuneInString (c0 # s))
           \<and> (\<forall>b\<in>set bs. 0x80 \<le> (of_char b :: nat))"
proof -
  let ?a0 = "of_char c0 :: nat"
  let ?D = "DecodeRuneInString (c0 # s)"
  have bad: "?D \<noteq> (RuneError, 1)" using ok by auto
  have first: "0xC2 \<le> ?a0 \<and> ?a0 \<le> 0xF4"
  proof (rule ccontr)
    assume "\<not> (0xC2 \<le> ?a0 \<and> ?a0 \<le> 0xF4)"
    then have "?D = (RuneError, 1)" using high by (auto simp: DecodeRuneInString_def)
    with bad show False by simp
  qed
  have second: "\<exists>c1 s1. s = c1 # s1 \<and> 0x80 \<le> (of_char c1 :: nat) \<and> (of_char c1 :: nat) \<le> 0xBF
      \<and> (?a0 = 0xE0 \<longrightarrow> 0xA0 \<le> (of_char c1 :: nat))
      \<and> (?a0 = 0xED \<longrightarrow> (of_char c1 :: nat) \<le> 0x9F)
      \<and> (?a0 = 0xF0 \<longrightarrow> 0x90 \<le> (of_char c1 :: nat))
      \<and> (?a0 = 0xF4 \<longrightarrow> (of_char c1 :: nat) \<le> 0x8F)"
  proof (cases s)
    case Nil
    then have "?D = (RuneError, 1)" using high first by (simp add: DecodeRuneInString_def Let_def)
    with bad show ?thesis by simp
  next
    case (Cons c1 s1)
    show ?thesis
    proof (rule ccontr)
      assume neg: "\<not> ?thesis"
      let ?a1 = "of_char c1 :: nat"
      from neg Cons have "?a1 < (if ?a0 = 0xE0 then 0xA0 else if ?a0 = 0xF0 then 0x90 else 0x80)
          \<or> (if ?a0 = 0xED then 0x9F else if ?a0 = 0xF4 then 0x8F else 0xBF) < ?a1"
        by (auto simp: not_le split: if_splits)
      then have "?D = (RuneError, 1)"
        using high first Cons by (simp add: DecodeRuneInString_def Let_def)
      with bad show False by simp
    qed
  qed
  then obtain c1 s1 where s: "s = c1 # s1"
    and c1: "0x80 \<le> (of_char c1 :: nat)" "(of_char c1 :: nat) \<le> 0xBF"
      "?a0 = 0xE0 \<longrightarrow> 0xA0 \<le> (of_char c1 :: nat)"
      "?a0 = 0xED \<longrightarrow> (of_char c1 :: nat) \<le> 0x9F"
      "?a0 = 0xF0 \<longrightarrow> 0x90 \<le> (of_char c1 :: nat)"
      "?a0 = 0xF4 \<longrightarrow> (of_char c1 :: nat) \<le> 0x8F"
    by blast
  consider (two) "?a0 < 0xE0" | (more) "0xE0 \<le> ?a0" by linarith
  then show ?thesis
  proof cases
    case two
    have d: "\<And>t. DecodeRuneInString (c0 # c1 # t)
        = ((?a0 - 0xC0) * 0x40 + ((of_char c1 :: nat) - 0x80), 2)"
      using first two c1(1,2) by (intro Decode2(1)) auto
    have e: "EncodeRune ((?a0 - 0xC0) * 0x40 + ((of_char c1 :: nat) - 0x80)) = [c0, c1]"
      using first two c1(1,2) by (intro Decode2(2)) auto
    show ?thesis
      apply (rule exI [of _ "[c0, c1]"], rule exI [of _ s1])
      using d e s high c1(1) by simp
  next
    case more
    have third: "\<exists>c2 s2. s1 = c2 # s2 \<and> 0x80 \<le> (of_char c2 :: nat) \<and> (of_char c2 :: nat) \<le> 0xBF"
    proof (cases s1)
      case Nil
      then have "?D = (RuneError, 1)"
        using high first more s by (simp add: DecodeRuneInString_def Let_def)
      with bad show ?thesis by simp
    next
      case (Cons c2 s2)
      show ?thesis
      proof (rule ccontr)
        assume neg: "\<not> ?thesis"
        with Cons have "(of_char c2 :: nat) < 0x80 \<or> 0xBF < (of_char c2 :: nat)"
          by (auto simp: not_le)
        then have "?D = (RuneError, 1)"
          using high first more s Cons by (simp add: DecodeRuneInString_def Let_def)
        with bad show False by simp
      qed
    qed
    then obtain c2 s2 where s1: "s1 = c2 # s2"
      and c2: "0x80 \<le> (of_char c2 :: nat)" "(of_char c2 :: nat) \<le> 0xBF"
      by blast
    consider (three) "?a0 < 0xF0" | (four) "0xF0 \<le> ?a0" by linarith
    then show ?thesis
    proof cases
      case three
      have d: "\<And>t. DecodeRuneInString (c0 # c1 # c2 # t)
          = ((?a0 - 0xE0) * 0x1000 + ((of_char c1 :: nat) - 0x80) * 0x40
               + ((of_char c2 :: nat) - 0x80), 3)"
        using more three c1 c2 by (intro Decode3(1)) auto
      have e: "EncodeRune ((?a0 - 0xE0) * 0x1000 + ((of_char c1 :: nat) - 0x80) * 0x40
               + ((of_char c2 :: nat) - 0x80)) = [c0, c1, c2]"
        using more three c1 c2 by (intro Decode3(2)) auto
      show ?thesis
        apply (rule exI [of _ "[c0, c1, c2]"], rule exI [of _ s2])
        using d e s s1 high c1(1) c2(1) by simp
    next
      case four
      have fourth: "\<exists>c3 s3. s2 = c3 # s3 \<and> 0x80 \<le> (of_char c3 :: nat) \<and> (of_char c3 :: nat) \<le> 0xBF"
      proof (cases s2)
        case Nil
        then have "?D = (RuneError, 1)"
          using high first four s s1 by (simp add: DecodeRuneInString_def Let_def)
        with bad show ?thesis by simp
      next
        case (Cons c3 s3)
        show ?thesis
        proof (rule ccontr)
          assume neg: "\<not> ?thesis"
          with Cons have "(of_char c3 :: nat) < 0x80 \<or> 0xBF < (of_char c3 :: nat)"
            by (auto simp: not_le)
          then have "?D = (RuneError, 1)"
            using high first four s s1 Cons c2
            by (simp add: DecodeRuneInString_def Let_def)
          with bad show False by simp
        qed
      qed
      then obtain c3 s3 where s2: "s2 = c3 # s3"
        and c3: "0x80 \<le> (of_char c3 :: nat)" "(of_char c3 :: nat) \<le> 0xBF"
        by blast
      have d: "\<And>t. DecodeRuneInString (c0 # c1 # c2 # c3 # t)
          = ((?a0 - 0xF0) * 0x40000 + ((of_char c1 :: nat) - 0x80) * 0x1000
               + ((of_char c2 :: nat) - 0x80) * 0x40 + ((of_char c3 :: nat) - 0x80), 4)"
        using first four c1 c2 c3 by (intro Decode4(1)) auto
      have e: "EncodeRune ((?a0 - 0xF0) * 0x40000 + ((of_char c1 :: nat) - 0x80) * 0x1000
               + ((of_char c2 :: nat) - 0x80) * 0x40 + ((of_char c3 :: nat) - 0x80))
            = [c0, c1, c2, c3]"
        using first four c1 c2 c3 by (intro Decode4(2)) auto
      show ?thesis
        apply (rule exI [of _ "[c0, c1, c2, c3]"], rule exI [of _ s3])
        using d e s s1 s2 high c1(1) c2(1) c3(1) by simp
    qed
  qed
qed

section \<open>Reading back an encoded string\<close>

lemma map_option_single: "map_option ((@) [c]) x = map_option ((#) c) x"
  by (cases x) simp_all

lemma hexValue_hex: "n < 16 \<Longrightarrow> hexValue (hex ! n) = Some n"
proof -
  have "\<forall>n<16. hexValue (hex ! n) = Some n"
    by (simp add: eval_nat_numeral All_less_Suc hex_def hexValue_def)
  then show "n < 16 \<Longrightarrow> hexValue (hex ! n) = Some n" by blast
qed

lemma getu4_byte:
  assumes "b < 256"
  shows "getu4 (backslash # CHR ''u'' # CHR ''0'' # CHR ''0''
                  # hex ! (b div 16) # hex ! (b mod 16) # t) = Some b"
proof -
  have "b div 16 < 16" using assms by simp
  moreover have "b mod 16 < 16" by simp
  moreover have z: "hexValue (CHR ''0'') = Some 0" by (simp add: hexValue_def)
  ultimately show ?thesis
    by (simp add: getu4_def hexValue_hex)
qed

lemma EncodeRune_ascii: "(of_char c :: nat) < 0x80 \<Longrightarrow> EncodeRune (of_char c) = [c]"
  by (simp add: EncodeRune_def)

lemma unquoteLoop_safe:
  "htmlSafeSet c \<Longrightarrow> unquoteLoop (c # t) = map_option (Cons c) (unquoteLoop t)"
  by (auto simp: htmlSafeSet_def)

lemma unquoteLoop_escapeByte:
  assumes "(of_char c :: nat) < 0x80" and "\<not> htmlSafeSet c"
  shows "unquoteLoop (escapeByte c @ t) = map_option (Cons c) (unquoteLoop t)"
proof -
  consider "c = backslash" | "c = dquote" | "c = CHR 0x08" | "c = CHR 0x0C" | "c = nl"
    | "c = CHR 0x0D" | "c = CHR 0x09"
    | "c \<noteq> backslash" "c \<noteq> dquote" "c \<noteq> CHR 0x08" "c \<noteq> CHR 0x0C" "c \<noteq> nl"
      "c \<noteq> CHR 0x0D" "c \<noteq> CHR 0x09"
    by blast
  then show ?thesis
  proof cases
    case 8
    have b: "(of_char c :: nat) < 256" using assms(1) by simp
    have ns: "\<not> IsSurrogate (of_char c)" using assms(1) by (simp add: IsSurrogate_def)
    have "unquoteLoop (backslash # CHR ''u'' # CHR ''0'' # CHR ''0''
            # hex ! ((of_char c :: nat) div 16) # hex ! ((of_char c :: nat) mod 16) # t)
          = map_option (append (EncodeRune (of_char c))) (unquoteLoop t)"
      using getu4_byte [OF b, of t] ns by simp
    with 8 assms(1) show ?thesis
      by (simp add: escapeByte_def EncodeRune_ascii map_option_single del: unquoteLoop.simps)
  qed (simp_all add: escapeByte_def)
qed

lemma getu4_separator:
  assumes "r = 0x2028 \<or> r = 0x2029"
  shows "getu4 (backslash # CHR ''u'' # CHR ''2'' # CHR ''0'' # CHR ''2'' # hex ! (r mod 16) # t)
         = Some r"
  using assms by (auto simp: getu4_def hexValue_def hex_def)

lemma unquoteLoop_separator:
  assumes "r = 0x2028 \<or> r = 0x2029"
  shows "unquoteLoop (backslash # CHR ''u'' # CHR ''2'' # CHR ''0'' # CHR ''2''
                        # hex ! (r mod 16) # t)
         = map_option (append (EncodeRune r)) (unquoteLoop t)"
proof -
  have ns: "\<not> IsSurrogate r" using assms by (auto simp: IsSurrogate_def)
  show ?thesis using getu4_separator [OF assms, of t] ns by simp
qed

lemma unquoteLoop_rune:
  assumes "\<not> (of_char c :: nat) < 0x80"
  shows "unquoteLoop (c # t)
         = map_option (append (EncodeRune (fst (DecodeRuneInString (c # t)))))
             (unquoteLoop (drop (snd (DecodeRuneInString (c # t))) (c # t)))"
proof -
  have "c \<noteq> backslash" "c \<noteq> dquote" "\<not> (of_char c :: nat) < 0x20"
    using assms by auto
  with assms show ?thesis by simp
qed

lemma Decode_take4: "DecodeRuneInString (take 4 s) = DecodeRuneInString s"
proof (cases "length s \<le> 4")
  case True
  then show ?thesis by simp
next
  case False
  then obtain a s1 where 1: "s = a # s1" by (cases s) auto
  with False obtain b s2 where 2: "s1 = b # s2" by (cases s1) auto
  with 1 False obtain c s3 where 3: "s2 = c # s3" by (cases s2) auto
  with 1 2 False obtain d s4 where 4: "s3 = d # s4" by (cases s3) auto
  show ?thesis unfolding 1 2 3 4
    by (simp add: DecodeRuneInString_def Let_def)
qed


text \<open>What \<open>escapeString\<close> writes for a valid UTF-8 text, \<open>unquoteLoop\<close> reads
  back as that text.\<close>

lemma unquoteLoop_escapeString:
  "ValidString s \<Longrightarrow> unquoteLoop (escapeString s) = Some s"
proof (induction "length s" arbitrary: s rule: less_induct)
  case less
  show ?case
  proof (cases s)
    case Nil
    then show ?thesis by simp
  next
    case (Cons c s')
    show ?thesis
    proof (cases "(of_char c :: nat) < 0x80")
      case True
      with less.prems Cons have "ValidString s'" by simp
      with less.hyps [of s'] Cons have IH: "unquoteLoop (escapeString s') = Some s'" by simp
      show ?thesis
      proof (cases "htmlSafeSet c")
        case safe: True
        with True Cons IH show ?thesis
          by (simp add: unquoteLoop_safe del: unquoteLoop.simps)
      next
        case unsafe: False
        with True Cons IH show ?thesis
          by (simp add: unquoteLoop_escapeByte del: unquoteLoop.simps)
      qed
    next
      case False
      let ?D = "DecodeRuneInString (c # s')"
      from less.prems Cons False
      have ok: "\<not> (fst ?D = RuneError \<and> snd ?D = 1)"
        and rest: "ValidString (drop (snd ?D) (c # s'))"
        by simp_all
      from valid_rune [OF False ok] obtain bs tl' where
        split: "c # s' = bs @ tl'" and n: "snd ?D = length bs"
        and enc: "EncodeRune (fst ?D) = bs"
        and dec: "\<And>t. DecodeRuneInString (bs @ t) = ?D"
        by blast
      have pos: "0 < length bs" using n DecodeRuneInString_pos [of c s'] by simp
      then obtain bs' where bs: "bs = c # bs'" using split by (cases bs) auto
      have dr: "drop (snd ?D) (c # s') = tl'" using split n by simp
      have tk: "take (snd ?D) (c # s') = bs" using split n by simp
      have "length (c # s') = length bs + length tl'" using split by simp
      then have "length tl' < length s" using pos Cons by simp
      with less.hyps [of tl'] rest dr
      have IH: "unquoteLoop (escapeString tl') = Some tl'" by simp
      have t4: "DecodeRuneInString (c # take 3 s') = ?D"
        using Decode_take4 [of "c # s'"] by simp
      show ?thesis
      proof (cases "fst ?D = 0x2028 \<or> fst ?D = 0x2029")
        case sep: True
        have "escapeString (c # s')
              = [backslash, CHR ''u'', CHR ''2'', CHR ''0'', CHR ''2'', hex ! (fst ?D mod 16)]
                  @ escapeString tl'"
          using False ok sep by (auto simp: t4 Let_def dr)
        then have "unquoteLoop (escapeString (c # s'))
              = map_option (append (EncodeRune (fst ?D))) (unquoteLoop (escapeString tl'))"
          using unquoteLoop_separator [OF sep, of "escapeString tl'"] by simp
        with IH enc split Cons show ?thesis by simp
      next
        case nosep: False
        have "escapeString (c # s') = bs @ escapeString tl'"
          using False ok nosep by (auto simp: t4 Let_def dr tk)
        then have "unquoteLoop (escapeString (c # s'))
              = unquoteLoop (c # (bs' @ escapeString tl'))"
          by (simp add: bs del: unquoteLoop.simps)
        also have "\<dots> = map_option (append (EncodeRune (fst ?D)))
                          (unquoteLoop (drop (snd ?D) (bs @ escapeString tl')))"
          using unquoteLoop_rune [OF False, of "bs' @ escapeString tl'"]
            dec [of "escapeString tl'"] by (simp add: bs del: unquoteLoop.simps)
        also have "\<dots> = map_option (append bs) (unquoteLoop (escapeString tl'))"
          using enc n by simp
        finally show ?thesis using IH split Cons by simp
      qed
    qed
  qed
qed

lemma unquote_appendString:
  "ValidString s \<Longrightarrow> unquote (appendString s) = Some s"
  by (simp add: unquote_def appendString_def unquoteLoop_escapeString butlast_append)

section \<open>One line for each write\<close>

text \<open>An encoded string has no newline byte in it, so the text of a record is one
  line, provided the time stamp has none.\<close>

lemma hex_not_nl: "n < 16 \<Longrightarrow> hex ! n \<noteq> nl"
proof -
  have "\<forall>n<16. hex ! n \<noteq> nl"
    by (simp add: eval_nat_numeral All_less_Suc hex_def)
  then show "n < 16 \<Longrightarrow> hex ! n \<noteq> nl" by blast
qed

lemma escapeByte_no_newline: "(of_char c :: nat) < 0x80 \<Longrightarrow> nl \<notin> set (escapeByte c)"
proof -
  assume "(of_char c :: nat) < 0x80"
  then have "(of_char c :: nat) div 16 < 16" by simp
  then have "hex ! ((of_char c :: nat) div 16) \<noteq> nl" "hex ! ((of_char c :: nat) mod 16) \<noteq> nl"
    by (simp_all add: hex_not_nl)
  then show ?thesis by (auto simp: escapeByte_def)
qed

lemma escapeString_no_newline: "nl \<notin> set (escapeString s)"
proof (induction "length s" arbitrary: s rule: less_induct)
  case less
  show ?case
  proof (cases s)
    case Nil
    then show ?thesis by simp
  next
    case (Cons c s')
    have IH: "nl \<notin> set (escapeString s')" using less [of s'] Cons by simp
    show ?thesis
    proof (cases "(of_char c :: nat) < 0x80")
      case True
      with Cons IH escapeByte_no_newline [OF True] show ?thesis
        by (auto simp: htmlSafeSet_def)
    next
      case False
      let ?D = "DecodeRuneInString (c # s')"
      have t4: "DecodeRuneInString (c # take 3 s') = ?D"
        using Decode_take4 [of "c # s'"] by simp
      show ?thesis
      proof (cases "fst ?D = RuneError \<and> snd ?D = 1")
        case True
        with False Cons IH show ?thesis by (simp add: t4 Let_def)
      next
        case ok: False
        from valid_rune [OF False ok] obtain bs tl' where
          split: "c # s' = bs @ tl'" and n: "snd ?D = length bs"
          and high: "\<forall>b\<in>set bs. 0x80 \<le> (of_char b :: nat)"
          by blast
        have pos: "0 < length bs" using n DecodeRuneInString_pos [of c s'] by simp
        have dr: "drop (snd ?D) (c # s') = tl'" using split n by simp
        have tk: "take (snd ?D) (c # s') = bs" using split n by simp
        have "length (c # s') = length bs + length tl'" using split by simp
        then have "length tl' < length s" using pos Cons by simp
        then have IH': "nl \<notin> set (escapeString tl')" by (rule less)
        have bs: "nl \<notin> set bs" using high by auto
        have h: "hex ! (fst ?D mod 16) \<noteq> nl" by (simp add: hex_not_nl)
        from False ok Cons IH' bs h show ?thesis
          by (auto simp: t4 Let_def dr tk)
      qed
    qed
  qed
qed

lemma appendString_no_newline: "nl \<notin> set (appendString s)"
  by (simp add: appendString_def escapeString_no_newline)

lemma char_of_high_no_nl:
  fixes k :: nat
  assumes "48 \<le> k" and "k < 256"
  shows "char_of k \<noteq> nl"
proof
  assume "char_of k = nl"
  then have "(of_char (char_of k :: char) :: nat) = of_char nl" by simp
  then have "k mod 256 = 10" by (simp only: of_char_of) simp
  with assms show False by simp
qed

lemma decimal_no_newline: "nl \<notin> set (decimal n)"
proof (induction n rule: decimal.induct)
  case (1 n)
  have last: "char_of (48 + n mod 10) \<noteq> nl"
    by (rule char_of_high_no_nl) simp_all
  show ?case
  proof (cases "n < 10")
    case True
    then have "char_of (48 + n) \<noteq> nl" by (intro char_of_high_no_nl) simp_all
    with True show ?thesis by (subst decimal.simps) simp
  next
    case False
    with 1 last show ?thesis by (subst decimal.simps) simp
  qed
qed

lemma Itoa_no_newline: "nl \<notin> set (Itoa i)"
  by (simp add: Itoa_def decimal_no_newline)

lemma MarshalJSON_no_newline: "nl \<notin> set (MarshalJSON l)"
  by (simp add: MarshalJSON_def appendString_no_newline)

lemma members_no_newline:
  "\<forall>(k, v)\<in>set kvs. nl \<notin> set k \<and> nl \<notin> set v \<Longrightarrow> nl \<notin> set (members kvs)"
  by (induction kvs rule: members.induct) auto

lemma Marshal_no_newline:
  assumes "nl \<notin> set (Timestamp m)"
  shows "nl \<notin> set (Marshal m)"
proof -
  have "\<forall>(k, v)\<in>set (marshalFields m). nl \<notin> set k \<and> nl \<notin> set v"
    using assms
    by (auto simp: marshalFields_def appendString_no_newline MarshalJSON_no_newline
        Itoa_no_newline)
  then show ?thesis by (simp add: Marshal_def members_no_newline)
qed

section \<open>The reader on the text of a record\<close>

text \<open>A string token ends at the first quote that is not escaped: bytes other than the
  quote and the backslash are passed over one by one, an escape two at a time.\<close>

lemma scanStringBody_plain:
  assumes "\<forall>c\<in>set p. c \<noteq> dquote \<and> c \<noteq> backslash"
    and "scanStringBody s = Some (b, r)"
  shows "scanStringBody (p @ s) = Some (p @ b, r)"
  using assms by (induction p) simp_all

lemma scanStringBody_escape:
  "scanStringBody s = Some (b, r)
   \<Longrightarrow> scanStringBody (backslash # e # s) = Some (backslash # e # b, r)"
  by simp

lemma hex_plain: "n < 16 \<Longrightarrow> hex ! n \<noteq> dquote \<and> hex ! n \<noteq> backslash"
proof -
  have "\<forall>n<16. hex ! n \<noteq> dquote \<and> hex ! n \<noteq> backslash"
    by (simp add: eval_nat_numeral All_less_Suc hex_def)
  then show "n < 16 \<Longrightarrow> hex ! n \<noteq> dquote \<and> hex ! n \<noteq> backslash" by blast
qed

lemma scanStringBody_escapeByte:
  assumes "(of_char c :: nat) < 0x80" and "scanStringBody s = Some (b, r)"
  shows "scanStringBody (escapeByte c @ s) = Some (escapeByte c @ b, r)"
proof -
  from assms(1) have "(of_char c :: nat) div 16 < 16" by simp
  then have h: "hex ! ((of_char c :: nat) div 16) \<noteq> dquote"
    "hex ! ((of_char c :: nat) div 16) \<noteq> backslash"
    "hex ! ((of_char c :: nat) mod 16) \<noteq> dquote"
    "hex ! ((of_char c :: nat) mod 16) \<noteq> backslash"
    by (simp_all add: hex_plain)
  with assms(2) show ?thesis by (simp add: escapeByte_def)
qed

lemma scanStringBody_escapeString:
  "scanStringBody t = Some (b, r)
   \<Longrightarrow> scanStringBody (escapeString s @ t) = Some (escapeString s @ b, r)"
proof (induction "length s" arbitrary: s rule: less_induct)
  case less
  note t = less.prems
  show ?case
  proof (cases s)
    case Nil
    with t show ?thesis by simp
  next
    case (Cons c s')
    have IH: "scanStringBody (escapeString s' @ t) = Some (escapeString s' @ b, r)"
      using less.hyps [of s'] Cons t by simp
    show ?thesis
    proof (cases "(of_char c :: nat) < 0x80")
      case True
      show ?thesis
      proof (cases "htmlSafeSet c")
        case safe: True
        then have "c \<noteq> dquote" "c \<noteq> backslash" by (simp_all add: htmlSafeSet_def)
        with True safe Cons IH show ?thesis by simp
      next
        case False
        with True Cons scanStringBody_escapeByte [OF True IH] show ?thesis by simp
      qed
    next
      case False
      let ?D = "DecodeRuneInString (c # s')"
      have t4: "DecodeRuneInString (c # take 3 s') = ?D"
        using Decode_take4 [of "c # s'"] by simp
      show ?thesis
      proof (cases "fst ?D = RuneError \<and> snd ?D = 1")
        case True
        with False Cons IH show ?thesis by (simp add: t4 Let_def)
      next
        case ok: False
        from valid_rune [OF False ok] obtain bs tl' where
          split: "c # s' = bs @ tl'" and n: "snd ?D = length bs"
          and high: "\<forall>b\<in>set bs. 0x80 \<le> (of_char b :: nat)"
          by blast
        have pos: "0 < length bs" using n DecodeRuneInString_pos [of c s'] by simp
        have dr: "drop (snd ?D) (c # s') = tl'" using split n by simp
        have tk: "take (snd ?D) (c # s') = bs" using split n by simp
        have "length (c # s') = length bs + length tl'" using split by simp
        then have "length tl' < length s" using pos Cons by simp
        then have IH': "scanStringBody (escapeString tl' @ t) = Some (escapeString tl' @ b, r)"
          using less.hyps [of tl'] t by simp
        have bs: "\<forall>c\<in>set bs. c \<noteq> dquote \<and> c \<noteq> backslash" using high by auto
        have h: "hex ! (fst ?D mod 16) \<noteq> dquote" "hex ! (fst ?D mod 16) \<noteq> backslash"
          by (simp_all add: hex_plain)
        show ?thesis
        proof (cases "fst ?D = 0x2028 \<or> fst ?D = 0x2029")
          case sep: True
          have "escapeString (c # s')
                = [backslash, CHR ''u'', CHR ''2'', CHR ''0'', CHR ''2'', hex ! (fst ?D mod 16)]
                    @ escapeString tl'"
            using False ok sep by (auto simp: t4 Let_def dr)
          with IH' h Cons show ?thesis by simp
        next
          case nosep: False
          have "escapeString (c # s') = bs @ escapeString tl'"
            using False ok nosep by (auto simp: t4 Let_def dr tk)
          with scanStringBody_plain [OF bs IH'] Cons show ?thesis by simp
        qed
      qed
    qed
  qed
qed

lemma scanString_appendString: "scanString (appendString s @ r) = Some (appendString s, r)"
proof -
  have "scanStringBody (dquote # r) = Some ([], r)" by simp
  from scanStringBody_escapeString [OF this, of s]
  show ?thesis by (simp add: scanString_def appendString_def)
qed

lemma scanString_plain:
  assumes "\<forall>c\<in>set p. c \<noteq> dquote \<and> c \<noteq> backslash"
  shows "scanString (dquote # p @ dquote # r) = Some (dquote # p @ [dquote], r)"
proof -
  have "scanStringBody (dquote # r) = Some ([], r)" by simp
  from scanStringBody_plain [OF assms this]
  show ?thesis by (simp add: scanString_def)
qed

lemma scanValue_appendString: "scanValue (appendString s @ r) = Some (appendString s, r)"
  using scanString_appendString [of s r] by (simp add: scanValue_def appendString_def)

lemma scanValue_MarshalJSON: "scanValue (MarshalJSON l @ r) = Some (MarshalJSON l, r)"
  by (simp add: MarshalJSON_def scanValue_appendString)

lemma scanValue_plain:
  assumes "\<forall>c\<in>set p. c \<noteq> dquote \<and> c \<noteq> backslash"
  shows "scanValue (dquote # p @ dquote # r) = Some (dquote # p @ [dquote], r)"
  using scanString_plain [OF assms, of r] by (simp add: scanValue_def)

text \<open>A number token is the decimal text of an \<open>int\<close>, up to the comma or brace that
  follows it.\<close>

lemma isDigit_char_of:
  fixes k :: nat
  assumes "48 \<le> k" and "k \<le> 57"
  shows "isDigit (char_of k)"
proof -
  have "(of_char (char_of k :: char) :: nat) = k mod 256" by (simp only: of_char_of)
  with assms show ?thesis by (simp add: isDigit_def)
qed

lemma decimal_digits: "list_all isDigit (decimal n) \<and> decimal n \<noteq> []"
proof (induction n rule: decimal.induct)
  case (1 n)
  have last: "isDigit (char_of (48 + n mod 10))"
    by (rule isDigit_char_of) simp_all
  show ?case
  proof (cases "n < 10")
    case True
    then have "isDigit (char_of (48 + n))" by (intro isDigit_char_of) simp_all
    with True show ?thesis by (subst decimal.simps, subst decimal.simps) simp
  next
    case False
    with 1 last show ?thesis by (subst decimal.simps, subst decimal.simps) simp
  qed
qed

lemma Itoa_token:
  "list_all (\<lambda>c. isDigit c \<or> c = CHR ''-'') (Itoa i) \<and> Itoa i \<noteq> []"
proof -
  have "list_all (\<lambda>c. isDigit c \<or> c = CHR ''-'') (decimal n)" for n
    using decimal_digits [of n] by (simp add: list_all_iff)
  then show ?thesis using decimal_digits by (simp add: Itoa_def)
qed

lemma Itoa_first: "hd (Itoa i) \<noteq> dquote"
proof -
  have "list_all (\<lambda>c. isDigit c \<or> c = CHR ''-'') (Itoa i)" "Itoa i \<noteq> []"
    using Itoa_token by simp_all
  then have "isDigit (hd (Itoa i)) \<or> hd (Itoa i) = CHR ''-''"
    by (cases "Itoa i") simp_all
  then show ?thesis by (auto simp: isDigit_def)
qed

lemma scanValue_Itoa:
  assumes "r \<noteq> []" and "hd r = CHR '','' \<or> hd r = CHR ''}''"
  shows "scanValue (Itoa i @ r) = Some (Itoa i, r)"
proof -
  let ?P = "\<lambda>c. isDigit c \<or> c = CHR ''-''"
  from assms obtain c r' where r: "r = c # r'" and c: "\<not> ?P c"
    by (cases r) (auto simp: isDigit_def)
  have all: "\<forall>x\<in>set (Itoa i). ?P x" and ne: "Itoa i \<noteq> []"
    using Itoa_token [of i] by (simp_all add: list_all_iff)
  have "takeWhile ?P (Itoa i @ r) = Itoa i @ takeWhile ?P r"
    using all by (intro takeWhile_append2) blast
  moreover have "takeWhile ?P r = []" using r c by simp
  ultimately have tw: "takeWhile ?P (Itoa i @ r) = Itoa i" by simp
  have "hd (Itoa i @ r) \<noteq> dquote" using ne Itoa_first [of i] by simp
  then show ?thesis using tw ne by (simp add: scanValue_def scanNumber_def Let_def)
qed


text \<open>The members of an object, read back one by one.\<close>

lemma parseMembers_members:
  assumes "kvs \<noteq> []"
    and "\<forall>(k, v)\<in>set kvs. (\<forall>c\<in>set k. c \<noteq> dquote \<and> c \<noteq> backslash)
           \<and> (\<forall>t. t \<noteq> [] \<and> (hd t = CHR '','' \<or> hd t = CHR ''}'') \<longrightarrow> scanValue (v @ t) = Some (v, t))"
  shows "parseMembers (members kvs @ CHR ''}'' # r)
         = Some (map (\<lambda>(k, v). (dquote # k @ [dquote], v)) kvs, r)"
  using assms
proof (induction kvs rule: members.induct)
  case 1
  then show ?case by simp
next
  case (2 k v)
  then have k: "\<forall>c\<in>set k. c \<noteq> dquote \<and> c \<noteq> backslash"
    and v: "scanValue (v @ CHR ''}'' # r) = Some (v, CHR ''}'' # r)"
    by simp_all
  have "scanString (dquote # k @ dquote # CHR '':'' # v @ CHR ''}'' # r)
        = Some (dquote # k @ [dquote], CHR '':'' # v @ CHR ''}'' # r)"
    by (rule scanString_plain [OF k])
  with v show ?case by (subst parseMembers.simps) simp
next
  case (3 k v p kvs)
  let ?rest = "members (p # kvs) @ CHR ''}'' # r"
  from "3.prems" have k: "\<forall>c\<in>set k. c \<noteq> dquote \<and> c \<noteq> backslash"
    and v: "scanValue (v @ CHR '','' # ?rest) = Some (v, CHR '','' # ?rest)"
    by simp_all
  have IH: "parseMembers ?rest = Some (map (\<lambda>(k, v). (dquote # k @ [dquote], v)) (p # kvs), r)"
    using "3.IH" "3.prems" by simp
  have "scanString (dquote # k @ dquote # CHR '':'' # v @ CHR '','' # ?rest)
        = Some (dquote # k @ [dquote], CHR '':'' # v @ CHR '','' # ?rest)"
    by (rule scanString_plain [OF k])
  with v IH show ?case by (subst parseMembers.simps) simp
qed

lemma timestampText_plain:
  "timestampText ts \<Longrightarrow> \<forall>c\<in>set ts. c \<noteq> dquote \<and> c \<noteq> backslash \<and> c \<noteq> nl"
  by (auto simp: timestampText_def list_all_iff isDigit_def)

lemma marshalFields_scan:
  assumes "timestampText (Timestamp m)"
  shows "\<forall>(k, v)\<in>set (marshalFields m). (\<forall>c\<in>set k. c \<noteq> dquote \<and> c \<noteq> backslash)
           \<and> (\<forall>t. t \<noteq> [] \<and> (hd t = CHR '','' \<or> hd t = CHR ''}'') \<longrightarrow> scanValue (v @ t) = Some (v, t))"
proof -
  have ts: "\<forall>c\<in>set (Timestamp m). c \<noteq> dquote \<and> c \<noteq> backslash"
    using timestampText_plain [OF assms] by blast
  have "scanValue ((dquote # Timestamp m @ [dquote]) @ t) = Some (dquote # Timestamp m @ [dquote], t)" for t
    using scanValue_plain [OF ts, of t] by simp
  then show ?thesis
    by (auto simp: marshalFields_def scanValue_appendString scanValue_MarshalJSON scanValue_Itoa
        simp del: append.simps)
qed

lemma parseLine_Marshal:
  assumes "timestampText (Timestamp m)"
  shows "parseLine (Marshal m @ [nl])
         = Some (map (\<lambda>(k, v). (dquote # k @ [dquote], v)) (marshalFields m))"
proof -
  have ne: "marshalFields m \<noteq> []" by (simp add: marshalFields_def)
  have pm: "parseMembers (members (marshalFields m) @ CHR ''}'' # [nl])
         = Some (map (\<lambda>(k, v). (dquote # k @ [dquote], v)) (marshalFields m), [nl])"
    by (rule parseMembers_members [OF ne marshalFields_scan [OF assms]])
  have "hd (members (marshalFields m) @ CHR ''}'' # [nl]) = dquote"
    by (simp add: marshalFields_def)
  then have first: "hd (members (marshalFields m) @ CHR ''}'' # [nl]) \<noteq> CHR ''}''" by simp
  have "members (marshalFields m) @ CHR ''}'' # [nl] \<noteq> []" by simp
  with pm first show ?thesis by (simp add: parseLine_def Marshal_def isSpace_def)
qed

lemma unquote_keys:
  "unquote (dquote # ''timestamp'' @ [dquote]) = Some ''timestamp''"
  "unquote (dquote # ''level'' @ [dquote]) = Some ''level''"
  "unquote (dquote # ''message'' @ [dquote]) = Some ''message''"
  "unquote (dquote # ''service'' @ [dquote]) = Some ''service''"
  "unquote (dquote # ''service_id'' @ [dquote]) = Some ''service_id''"
  "unquote (dquote # ''src_file'' @ [dquote]) = Some ''src_file''"
  "unquote (dquote # ''src_line'' @ [dquote]) = Some ''src_line''"
  by (simp_all add: unquote_def)

lemma lineField_message:
  assumes "timestampText (Timestamp m)"
  shows "lineField (Marshal m @ [nl]) ''message'' = Some (appendString (Message m))"
  unfolding lineField_def parseLine_Marshal [OF assms]
  by (cases "ModuleId m = []"; cases "SrcFile m = []"; cases "SrcLine m = 0")
     (simp_all add: marshalFields_def unquote_keys del: append.simps)

lemma lineMessage_Marshal:
  assumes "timestampText (Timestamp m)"
  shows "lineMessage (Marshal m @ [nl]) = unquote (appendString (Message m))"
  by (simp add: lineMessage_def lineField_message [OF assms])


text \<open>What the reader makes of an encoded string that need not be valid UTF-8: the
  decoding succeeds, and a newline of the string is a newline of the result.\<close>

lemma unquoteLoop_replacement:
  "unquoteLoop (backslash # CHR ''u'' # CHR ''f'' # CHR ''f'' # CHR ''f'' # CHR ''d'' # t)
   = map_option (append (EncodeRune RuneError)) (unquoteLoop t)"
proof -
  have "getu4 (backslash # CHR ''u'' # CHR ''f'' # CHR ''f'' # CHR ''f'' # CHR ''d'' # t)
        = Some RuneError"
    by (simp add: getu4_def hexValue_def RuneError_def)
  moreover have "\<not> IsSurrogate RuneError" by (simp add: IsSurrogate_def RuneError_def)
  ultimately show ?thesis by simp
qed

lemma unquoteLoop_escapeString_newline:
  "\<exists>t. unquoteLoop (escapeString s) = Some t \<and> (nl \<in> set s \<longrightarrow> nl \<in> set t)"
proof (induction "length s" arbitrary: s rule: less_induct)
  case less
  show ?case
  proof (cases s)
    case Nil
    then show ?thesis by simp
  next
    case (Cons c s')
    from less [of s'] Cons obtain t' where
      IH: "unquoteLoop (escapeString s') = Some t'" "nl \<in> set s' \<longrightarrow> nl \<in> set t'"
      by auto
    show ?thesis
    proof (cases "(of_char c :: nat) < 0x80")
      case True
      have "unquoteLoop (escapeString (c # s')) = Some (c # t')"
      proof (cases "htmlSafeSet c")
        case safe: True
        with True IH(1) show ?thesis
          by (simp add: unquoteLoop_safe del: unquoteLoop.simps)
      next
        case unsafe: False
        with True IH(1) show ?thesis
          by (simp add: unquoteLoop_escapeByte del: unquoteLoop.simps)
      qed
      with IH(2) Cons show ?thesis by auto
    next
      case False
      then have cnl: "c \<noteq> nl" by auto
      let ?D = "DecodeRuneInString (c # s')"
      have t4: "DecodeRuneInString (c # take 3 s') = ?D"
        using Decode_take4 [of "c # s'"] by simp
      show ?thesis
      proof (cases "fst ?D = RuneError \<and> snd ?D = 1")
        case True
        with False have "escapeString (c # s')
            = backslash # CHR ''u'' # CHR ''f'' # CHR ''f'' # CHR ''f'' # CHR ''d'' # escapeString s'"
          by (simp add: t4 Let_def)
        then have "unquoteLoop (escapeString (c # s')) = Some (EncodeRune RuneError @ t')"
          using unquoteLoop_replacement [of "escapeString s'"] IH(1) by simp
        with IH(2) cnl Cons show ?thesis by auto
      next
        case ok: False
        from valid_rune [OF False ok] obtain bs tl' where
          split: "c # s' = bs @ tl'" and n: "snd ?D = length bs"
          and enc: "EncodeRune (fst ?D) = bs"
          and dec: "\<And>t. DecodeRuneInString (bs @ t) = ?D"
          by blast
        have pos: "0 < length bs" using n DecodeRuneInString_pos [of c s'] by simp
        then obtain bs' where bs: "bs = c # bs'" using split by (cases bs) auto
        have dr: "drop (snd ?D) (c # s') = tl'" using split n by simp
        have tk: "take (snd ?D) (c # s') = bs" using split n by simp
        have "length (c # s') = length bs + length tl'" using split by simp
        then have "length tl' < length s" using pos Cons by simp
        from less [OF this] obtain t'' where
          IH': "unquoteLoop (escapeString tl') = Some t''" "nl \<in> set tl' \<longrightarrow> nl \<in> set t''"
          by auto
        have "unquoteLoop (escapeString (c # s')) = Some (bs @ t'')"
        proof (cases "fst ?D = 0x2028 \<or> fst ?D = 0x2029")
          case sep: True
          have "escapeString (c # s')
                = [backslash, CHR ''u'', CHR ''2'', CHR ''0'', CHR ''2'', hex ! (fst ?D mod 16)]
                    @ escapeString tl'"
            using False ok sep by (auto simp: t4 Let_def dr)
          then have "unquoteLoop (escapeString (c # s'))
                = map_option (append (EncodeRune (fst ?D))) (unquoteLoop (escapeString tl'))"
            using unquoteLoop_separator [OF sep, of "escapeString tl'"] by simp
          with IH'(1) enc show ?thesis by simp
        next
          case nosep: False
          have "escapeString (c # s') = bs @ escapeString tl'"
            using False ok nosep by (auto simp: t4 Let_def dr tk)
          then have "unquoteLoop (escapeString (c # s'))
                = unquoteLoop (c # (bs' @ escapeString tl'))"
            by (simp add: bs del: unquoteLoop.simps)
          also have "\<dots> = map_option (append (EncodeRune (fst ?D)))
                            (unquoteLoop (drop (snd ?D) (bs @ escapeString tl')))"
            using unquoteLoop_rune [OF False, of "bs' @ escapeString tl'"]
              dec [of "escapeString tl'"] by (simp add: bs del: unquoteLoop.simps)
          also have "\<dots> = map_option (append bs) (unquoteLoop (escapeString tl'))"
            using enc n by simp
          finally show ?thesis using IH'(1) by simp
        qed
        moreover have "nl \<in> set (c # s') \<longrightarrow> nl \<in> set (bs @ t'')"
          using IH'(2) unfolding split by auto
        ultimately show ?thesis using Cons by auto
      qed
    qed
  qed
qed

lemma unquote_appendString_newline:
  "\<exists>t. unquote (appendString s) = Some t \<and> (nl \<in> set s \<longrightarrow> nl \<in> set t)"
  using unquoteLoop_escapeString_newline [of s]
  by (simp add: unquote_def appendString_def butlast_append)


section \<open>Messages that are not split\<close>

lemma EncodeRune_RuneError: "EncodeRune RuneError = [CHR 0xEF, CHR 0xBF, CHR 0xBD]"
proof -
  have "char_of (of_char (CHR 0xEF) :: nat) = CHR 0xEF"
    "char_of (of_char (CHR 0xBF) :: nat) = CHR 0xBF"
    "char_of (of_char (CHR 0xBD) :: nat) = CHR 0xBD"
    by (rule char_of_char)+
  then show ?thesis by (simp add: EncodeRune_def RuneError_def Let_def)
qed

lemma exampleMsg_timestampText: "timestampText (Timestamp (exampleMsg l text))"
  by (simp add: exampleMsg_def timestampText_def isDigit_def)

lemma line_invalid_byte:
  "lineMessage (Marshal (exampleMsg InfoLevel [CHR 0xFF]) @ [nl])
   = Some [CHR 0xEF, CHR 0xBF, CHR 0xBD]"
proof -
  have "escapeString [CHR 0xFF]
        = [backslash, CHR ''u'', CHR ''f'', CHR ''f'', CHR ''f'', CHR ''d'']"
    by (simp add: DecodeRuneInString_def Let_def)
  then have "unquote (appendString [CHR 0xFF]) = Some [CHR 0xEF, CHR 0xBF, CHR 0xBD]"
    using unquoteLoop_replacement [of "[]"]
    by (simp add: unquote_def appendString_def EncodeRune_RuneError del: unquoteLoop.simps(2))
  moreover have "Message (exampleMsg InfoLevel [CHR 0xFF]) = [CHR 0xFF]"
    by (simp add: exampleMsg_def)
  ultimately show ?thesis
    using lineMessage_Marshal [OF exampleMsg_timestampText, of InfoLevel "[CHR 0xFF]"] by simp
qed

text \<open>
  Claim C8, as the code has it. A record that passes the level filter, with a message
  that is valid UTF-8 and no longer than the threshold, and with the time stamp that
  \<open>time.Time\<close> writes, is written once, to standard output and to every writer: the
  JSON text of the record and a newline, with no other newline in it, so one line. The
  reader of that line finds the member \<open>message\<close> in it, and decoding the member gives the
  message back, byte for byte. (A byte that is not valid UTF-8 is written as the escape of
  U+FFFD and is read back as that rune; a record below the level of the handle writes
  nothing.)
\<close>

theorem short_message_round_trip:
  assumes "Logger.Level lg \<le> LogMsg.Level msg"
    and "int (length (Message msg)) \<le> msgLen lg"
    and "ValidString (Message msg)"
    and "timestampText (Timestamp msg)"
  shows "printMessage msg (lg, out)
           = Some (Inr (lg\<lparr>writers := map (\<lambda>w. w @ [Marshal msg @ [nl]]) (writers lg)\<rparr>,
                        out @ [Marshal msg @ [nl]]))
       \<and> nl \<notin> set (Marshal msg)
       \<and> lineField (Marshal msg @ [nl]) ''message'' = Some (appendString (Message msg))
       \<and> lineMessage (Marshal msg @ [nl]) = Some (Message msg)"
proof -
  have "printMessage msg (lg, out) = Some (Inr (emit (Marshal msg) (lg, out)))"
    using assms(1,2) by (rule printMessage_short)
  then have "printMessage msg (lg, out)
           = Some (Inr (lg\<lparr>writers := map (\<lambda>w. w @ [Marshal msg @ [nl]]) (writers lg)\<rparr>,
                        out @ [Marshal msg @ [nl]]))"
    by (simp add: emit_def)
  moreover have "nl \<notin> set (Marshal msg)"
    using timestampText_plain [OF assms(4)] by (intro Marshal_no_newline) blast
  moreover have "lineField (Marshal msg @ [nl]) ''message'' = Some (appendString (Message msg))"
    by (rule lineField_message [OF assms(4)])
  moreover have "lineMessage (Marshal msg @ [nl]) = Some (Message msg)"
    using lineMessage_Marshal [OF assms(4)] unquote_appendString [OF assms(3)] by simp
  ultimately show ?thesis by blast
qed

theorem short_message_round_trip_witness:
  "Logger.Level (logger exampleProcess) \<le> LogMsg.Level (exampleMsg InfoLevel ''hello'')
   \<and> int (length (Message (exampleMsg InfoLevel ''hello''))) \<le> msgLen (logger exampleProcess)
   \<and> ValidString (Message (exampleMsg InfoLevel ''hello''))
   \<and> timestampText (Timestamp (exampleMsg InfoLevel ''hello''))
   \<and> printMessage (exampleMsg InfoLevel ''hello'') (logger exampleProcess, [])
       = Some (Inr ((logger exampleProcess)
                      \<lparr>writers := [[Marshal (exampleMsg InfoLevel ''hello'') @ [nl]]]\<rparr>,
                    [Marshal (exampleMsg InfoLevel ''hello'') @ [nl]]))
   \<and> nl \<notin> set (Marshal (exampleMsg InfoLevel ''hello''))
   \<and> lineMessage (Marshal (exampleMsg InfoLevel ''hello'') @ [nl]) = Some ''hello''"
proof -
  have h1: "Logger.Level (logger exampleProcess) \<le> LogMsg.Level (exampleMsg InfoLevel ''hello'')"
    by (simp add: exampleProcess_eq exampleMsg_def)
  have h2: "int (length (Message (exampleMsg InfoLevel ''hello''))) \<le> msgLen (logger exampleProcess)"
    by (simp add: exampleProcess_eq exampleMsg_def)
  have h3: "ValidString (Message (exampleMsg InfoLevel ''hello''))"
    by (simp add: exampleMsg_def)
  have h4: "timestampText (Timestamp (exampleMsg InfoLevel ''hello''))"
    by (simp add: exampleMsg_def timestampText_def isDigit_def)
  have w: "writers (logger exampleProcess) = [[]]" by (simp add: exampleProcess_eq)
  have m: "Message (exampleMsg InfoLevel ''hello'') = ''hello''" by (simp add: exampleMsg_def)
  from short_message_round_trip [OF h1 h2 h3 h4, of "[]"] h1 h2 h3 h4
  show ?thesis by (simp add: w m)
qed

theorem short_message_counterexample:
  "int (length (Message (exampleMsg InfoLevel [CHR 0xFF]))) \<le> msgLen (logger exampleProcess)
   \<and> printMessage (exampleMsg InfoLevel [CHR 0xFF]) (logger exampleProcess, [])
       = Some (Inr ((logger exampleProcess)
                      \<lparr>writers := [[Marshal (exampleMsg InfoLevel [CHR 0xFF]) @ [nl]]]\<rparr>,
                    [Marshal (exampleMsg InfoLevel [CHR 0xFF]) @ [nl]]))
   \<and> lineMessage (Marshal (exampleMsg InfoLevel [CHR 0xFF]) @ [nl])
       = Some [CHR 0xEF, CHR 0xBF, CHR 0xBD]
   \<and> Message (exampleMsg InfoLevel [CHR 0xFF]) = [CHR 0xFF]
   \<and> int (length (Message (exampleMsg DebugLevel ''x''))) \<le> msgLen (logger exampleProcess)
   \<and> printMessage (exampleMsg DebugLevel ''x'') (logger exampleProcess, [])
       = Some (Inr (logger exampleProcess, []))"
proof -
  have "printMessage (exampleMsg InfoLevel [CHR 0xFF]) (logger exampleProcess, [])
       = Some (Inr (emit (Marshal (exampleMsg InfoLevel [CHR 0xFF])) (logger exampleProcess, [])))"
    by (rule printMessage_short) (simp_all add: exampleProcess_eq exampleMsg_def)
  moreover have "printMessage (exampleMsg DebugLevel ''x'') (logger exampleProcess, [])
       = Some (Inr (logger exampleProcess, []))"
    by (simp add: printMessage_def exampleProcess_eq exampleMsg_def DebugLevel_def InfoLevel_def)
  moreover have "msgLen (logger exampleProcess) = 10" "writers (logger exampleProcess) = [[]]"
    by (simp_all add: exampleProcess_eq)
  moreover have "Message (exampleMsg InfoLevel [CHR 0xFF]) = [CHR 0xFF]"
    "Message (exampleMsg DebugLevel ''x'') = ''x''"
    by (simp_all add: exampleMsg_def)
  ultimately show ?thesis by (simp add: line_invalid_byte emit_def)
qed

text \<open>
  In a longer message the fragment of a pass is the text before the last newline at or
  before the threshold, earlier newlines included.
\<close>

lemma splitStep_keeps_earlier_newlines:
  "splitStep (exampleMsg InfoLevel ([CHR ''a'', nl, CHR ''b'', CHR ''c'', nl] @ ''hello world''))
      (logger exampleProcess, [])
   = Inr (emit (Marshal (exampleMsg InfoLevel [CHR ''a'', nl, CHR ''b'', CHR ''c'']))
            (logger exampleProcess, []))"
  by (simp add: splitStep_def exampleMsg_def exampleProcess_eq lastNewline.simps slice_def
      Index_no_nl Let_def)

lemma line_newline_message:
  "ValidString s \<Longrightarrow> lineMessage (Marshal (exampleMsg InfoLevel s) @ [nl]) = Some s"
proof -
  assume "ValidString s"
  moreover have "Message (exampleMsg InfoLevel s) = s" by (simp add: exampleMsg_def)
  ultimately show ?thesis
    using lineMessage_Marshal [OF exampleMsg_timestampText, of InfoLevel s]
    by (simp add: unquote_appendString)
qed

text \<open>
  Claim C6, as the code has it. A message with newlines in it that is no longer than the
  threshold is not split: the record, if it passes the level filter, is written as one
  line. The member \<open>message\<close> that the reader finds in that line is the encoding of the
  whole message; it decodes to a text with a newline in it, and for valid UTF-8 to the
  original message. (In the text of the line each newline of the message is a backslash
  and the letter n.)
\<close>

theorem newline_message_kept_whole:
  assumes "Logger.Level lg \<le> LogMsg.Level msg"
    and "int (length (Message msg)) \<le> msgLen lg"
    and "nl \<in> set (Message msg)"
    and "timestampText (Timestamp msg)"
  shows "printMessage msg (lg, out)
           = Some (Inr (lg\<lparr>writers := map (\<lambda>w. w @ [Marshal msg @ [nl]]) (writers lg)\<rparr>,
                        out @ [Marshal msg @ [nl]]))
       \<and> nl \<notin> set (Marshal msg)
       \<and> lineField (Marshal msg @ [nl]) ''message'' = Some (appendString (Message msg))
       \<and> (\<exists>field. lineMessage (Marshal msg @ [nl]) = Some field \<and> nl \<in> set field)
       \<and> (ValidString (Message msg) \<longrightarrow> lineMessage (Marshal msg @ [nl]) = Some (Message msg))"
proof -
  have "printMessage msg (lg, out) = Some (Inr (emit (Marshal msg) (lg, out)))"
    using assms(1,2) by (rule printMessage_short)
  then have "printMessage msg (lg, out)
           = Some (Inr (lg\<lparr>writers := map (\<lambda>w. w @ [Marshal msg @ [nl]]) (writers lg)\<rparr>,
                        out @ [Marshal msg @ [nl]]))"
    by (simp add: emit_def)
  moreover have "nl \<notin> set (Marshal msg)"
    using timestampText_plain [OF assms(4)] by (intro Marshal_no_newline) blast
  moreover have "lineField (Marshal msg @ [nl]) ''message'' = Some (appendString (Message msg))"
    by (rule lineField_message [OF assms(4)])
  moreover have "\<exists>field. lineMessage (Marshal msg @ [nl]) = Some field \<and> nl \<in> set field"
    using lineMessage_Marshal [OF assms(4)] unquote_appendString_newline [of "Message msg"]
      assms(3) by auto
  moreover have "ValidString (Message msg) \<longrightarrow> lineMessage (Marshal msg @ [nl]) = Some (Message msg)"
    using lineMessage_Marshal [OF assms(4)] by (simp add: unquote_appendString)
  ultimately show ?thesis by blast
qed

theorem newline_message_kept_whole_witness:
  "Logger.Level (logger exampleProcess) \<le> LogMsg.Level (exampleMsg InfoLevel [CHR ''a'', nl, CHR ''b''])
   \<and> int (length (Message (exampleMsg InfoLevel [CHR ''a'', nl, CHR ''b''])))
        \<le> msgLen (logger exampleProcess)
   \<and> nl \<in> set (Message (exampleMsg InfoLevel [CHR ''a'', nl, CHR ''b'']))
   \<and> timestampText (Timestamp (exampleMsg InfoLevel [CHR ''a'', nl, CHR ''b'']))
   \<and> ValidString (Message (exampleMsg InfoLevel [CHR ''a'', nl, CHR ''b'']))
   \<and> printMessage (exampleMsg InfoLevel [CHR ''a'', nl, CHR ''b'']) (logger exampleProcess, [])
       = Some (Inr ((logger exampleProcess)
                \<lparr>writers := [[Marshal (exampleMsg InfoLevel [CHR ''a'', nl, CHR ''b'']) @ [nl]]]\<rparr>,
              [Marshal (exampleMsg InfoLevel [CHR ''a'', nl, CHR ''b'']) @ [nl]]))
   \<and> nl \<notin> set (Marshal (exampleMsg InfoLevel [CHR ''a'', nl, CHR ''b'']))
   \<and> lineMessage (Marshal (exampleMsg InfoLevel [CHR ''a'', nl, CHR ''b'']) @ [nl])
       = Some [CHR ''a'', nl, CHR ''b'']"
proof -
  let ?m = "exampleMsg InfoLevel [CHR ''a'', nl, CHR ''b'']"
  have m: "Message ?m = [CHR ''a'', nl, CHR ''b'']" by (simp add: exampleMsg_def)
  have h1: "Logger.Level (logger exampleProcess) \<le> LogMsg.Level ?m"
    by (simp add: exampleProcess_eq exampleMsg_def)
  have h2: "int (length (Message ?m)) \<le> msgLen (logger exampleProcess)"
    by (simp add: exampleProcess_eq m)
  have h3: "nl \<in> set (Message ?m)" by (simp add: m)
  have h4: "timestampText (Timestamp ?m)"
    by (simp add: exampleMsg_def timestampText_def isDigit_def)
  have h5: "ValidString (Message ?m)" by (simp add: m)
  have w: "writers (logger exampleProcess) = [[]]" by (simp add: exampleProcess_eq)
  from newline_message_kept_whole [OF h1 h2 h3 h4, of "[]"] h1 h2 h3 h4 h5
  show ?thesis by (simp add: w m)
qed

theorem newline_message_counterexample:
  "nl \<in> set (Message (exampleMsg InfoLevel [CHR ''a'', nl, CHR ''b'']))
   \<and> printMessage (exampleMsg InfoLevel [CHR ''a'', nl, CHR ''b'']) (logger exampleProcess, [])
       = Some (Inr ((logger exampleProcess)
                \<lparr>writers := [[Marshal (exampleMsg InfoLevel [CHR ''a'', nl, CHR ''b'']) @ [nl]]]\<rparr>,
              [Marshal (exampleMsg InfoLevel [CHR ''a'', nl, CHR ''b'']) @ [nl]]))
   \<and> lineMessage (Marshal (exampleMsg InfoLevel [CHR ''a'', nl, CHR ''b'']) @ [nl])
       = Some [CHR ''a'', nl, CHR ''b'']
   \<and> nl \<in> set [CHR ''a'', nl, CHR ''b'']
   \<and> splitStep (exampleMsg InfoLevel ([CHR ''a'', nl, CHR ''b'', CHR ''c'', nl] @ ''hello world''))
        (logger exampleProcess, [])
       = Inr ((logger exampleProcess)
                \<lparr>writers := [[Marshal (exampleMsg InfoLevel [CHR ''a'', nl, CHR ''b'', CHR ''c'']) @ [nl]]]\<rparr>,
              [Marshal (exampleMsg InfoLevel [CHR ''a'', nl, CHR ''b'', CHR ''c'']) @ [nl]])
   \<and> lineMessage (Marshal (exampleMsg InfoLevel [CHR ''a'', nl, CHR ''b'', CHR ''c'']) @ [nl])
       = Some [CHR ''a'', nl, CHR ''b'', CHR ''c'']"
proof -
  let ?m = "exampleMsg InfoLevel [CHR ''a'', nl, CHR ''b'']"
  have m: "Message ?m = [CHR ''a'', nl, CHR ''b'']" by (simp add: exampleMsg_def)
  have "printMessage ?m (logger exampleProcess, [])
       = Some (Inr (emit (Marshal ?m) (logger exampleProcess, [])))"
    by (rule printMessage_short) (simp_all add: exampleProcess_eq exampleMsg_def)
  moreover have w: "writers (logger exampleProcess) = [[]]" by (simp add: exampleProcess_eq)
  moreover have "lineMessage (Marshal ?m @ [nl]) = Some [CHR ''a'', nl, CHR ''b'']"
    by (rule line_newline_message) simp
  moreover have "lineMessage (Marshal (exampleMsg InfoLevel [CHR ''a'', nl, CHR ''b'', CHR ''c'']) @ [nl])
       = Some [CHR ''a'', nl, CHR ''b'', CHR ''c'']"
    by (rule line_newline_message) simp
  moreover have "splitStep
        (exampleMsg InfoLevel ([CHR ''a'', nl, CHR ''b'', CHR ''c'', nl] @ ''hello world''))
        (logger exampleProcess, [])
       = Inr (emit (Marshal (exampleMsg InfoLevel [CHR ''a'', nl, CHR ''b'', CHR ''c'']))
            (logger exampleProcess, []))"
    by (rule splitStep_keeps_earlier_newlines)
  ultimately show ?thesis by (simp add: emit_def m)
qed

end
